theory Spec2Isabelle
  imports Complex_Main "HOL-Library.Multiset" "HOL-Library.Signed_Division" "HOL-Library.Char_ord"
    "HOL-Library.List_Lexorder" "HOL-Library.Monad_Syntax"
begin

section \<open>Integers and strings of the source\<close>

text \<open>
  The C++ \<open>int\<close> values of the program are modelled as HOL integers; \<open>is_int\<close> states
  that a value fits the 32-bit type. Where the source compares or passes an \<open>int\<close>
  with a \<open>size_t\<close> the int is converted to the unsigned 64-bit type first, which
  \<open>size_t_of_int\<close> writes out: a negative int becomes a value above \<open>2 ^ 63\<close>.
  Sums are exact here. The one sum of the source that can leave the 32-bit range is
  \<open>position + length\<close> in \<open>extract\<close>, formed after \<open>position\<close> was found not to be
  negative: the wrapped sum would be negative, hence huge as a \<open>size_t\<close>, and fails
  the comparison with the length of the sequence as the exact sum does.
\<close>

definition is_int :: "int \<Rightarrow> bool" where
  "is_int i \<longleftrightarrow> - (2 ^ 31) \<le> i \<and> i < 2 ^ 31"

definition size_t_of_int :: "int \<Rightarrow> nat" where
  "size_t_of_int i = (if i < 0 then nat (i + 2 ^ 64) else nat i)"

text \<open>\<open>std::string::substr(pos, n)\<close> for \<open>pos \<le> size\<close> (every call of the source is so).\<close>

definition substr :: "string \<Rightarrow> nat \<Rightarrow> nat \<Rightarrow> string" where
  "substr s pos n = take n (drop pos s)"

text \<open>\<open>toupper\<close> of the C locale, as the loader applies it to every base it reads.\<close>

definition toupper :: "char \<Rightarrow> char" where
  "toupper c =
     (if of_char (CHR ''a'') \<le> (of_char c :: nat) \<and> (of_char c :: nat) \<le> of_char (CHR ''z'')
      then char_of ((of_char c :: nat) - 32) else c)"

text \<open>
  The value of a \<open>char\<close> as an integer. Plain \<open>char\<close> is a signed type for the
  compilers of the platforms the program was written on (g++ and clang on x86-64), so
  the bytes from \<open>0x80\<close> on are negative.
\<close>

definition signed_char :: "char \<Rightarrow> int" where
  "signed_char c =
     (if (of_char c :: nat) < 128 then int (of_char c) else int (of_char c) - 256)"

section \<open>Genome\<close>

record Genome =
  m_name :: string
  m_sequence :: string

text \<open>\<open>GenomeImpl::GenomeImpl\<close>: both members are initialised from the arguments.\<close>

definition GenomeImpl :: "string \<Rightarrow> string \<Rightarrow> Genome" where
  "GenomeImpl nm sequence = \<lparr>m_name = nm, m_sequence = sequence\<rparr>"

definition Genome_length :: "Genome \<Rightarrow> int" where
  "Genome_length g = int (length (m_sequence g))"

definition Genome_name :: "Genome \<Rightarrow> string" where
  "Genome_name g = m_name g"

text \<open>
  \<open>GenomeImpl::extract\<close>, under a longer name since \<open>extract\<close> is a keyword of
  Isabelle. \<open>None\<close> is the return value \<open>false\<close>, which leaves the caller's
  \<open>fragment\<close> as it was; \<open>Some s\<close> is \<open>true\<close> with \<open>fragment = s\<close>. Both
  comparisons are made in \<open>size_t\<close>.
\<close>

definition Genome_extract :: "Genome \<Rightarrow> int \<Rightarrow> int \<Rightarrow> string option" where
  "Genome_extract g position len =
     (if position < 0 \<or> size_t_of_int position \<ge> length (m_sequence g) then None
      else if size_t_of_int (position + len) > length (m_sequence g) then None
      else Some (substr (m_sequence g) (size_t_of_int position) (size_t_of_int len)))"

text \<open>
  The callers' idiom \<open>string substring = "error"; g.extract(p, n, substring);\<close>:
  the variable keeps the sentinel when the extraction fails.
\<close>

definition extractOrError :: "Genome \<Rightarrow> int \<Rightarrow> int \<Rightarrow> string" where
  "extractOrError g position len =
     (case Genome_extract g position len of None \<Rightarrow> ''error'' | Some s \<Rightarrow> s)"

text \<open>The characters \<open>GenomeImpl\<close> assumes a sequence to consist of.\<close>

definition isBase :: "char \<Rightarrow> bool" where
  "isBase c \<longleftrightarrow> c = CHR ''A'' \<or> c = CHR ''C'' \<or> c = CHR ''T'' \<or> c = CHR ''G'' \<or> c = CHR ''N''"

section \<open>Trie\<close>

text \<open>
  A node holds its values and \<open>POSSIBLE_CHARACTERS\<close> child slots, numbered from 0; an
  empty slot is \<open>None\<close>. Slot number \<open>n\<close> is written as the character with byte value
  \<open>n\<close>. The root pointer of a \<open>Trie\<close> is never null, so a trie is its root node.
\<close>

datatype 'v Node = Node (m_values: "'v list") (m_children: "char \<Rightarrow> 'v Node option")

definition POSSIBLE_CHARACTERS :: int where
  "POSSIBLE_CHARACTERS = 256"

definition newNode :: "'v Node" where
  "newNode = Node [] (\<lambda>i. None)"

text \<open>The slot numbers \<open>0 .. POSSIBLE_CHARACTERS - 1\<close> in increasing order.\<close>

definition slots :: "char list" where
  "slots = Enum.enum"

text \<open>
  \<open>t->m_children[i]\<close> for an index \<open>i\<close>: the content of the slot, or \<open>None\<close> when the
  index lies outside the array, which is undefined behaviour in the source. The source
  indexes with a \<open>char\<close>, so with \<open>signed_char\<close> of the character.
\<close>

definition child :: "'v Node \<Rightarrow> int \<Rightarrow> 'v Node option option" where
  "child t i =
     (if 0 \<le> i \<and> i < POSSIBLE_CHARACTERS then Some (m_children t (char_of (nat i))) else None)"

text \<open>
  \<open>Trie::insert\<close>: walk down the key, creating the missing nodes, and append the value
  at the node reached. The nodes have one owner each, so updating in place is rebuilding
  the path. \<open>None\<close> is an access outside the array of children.
\<close>

fun insertT :: "string \<Rightarrow> 'v \<Rightarrow> 'v Node \<Rightarrow> 'v Node option" where
  "insertT [] val curNode = Some (Node (m_values curNode @ [val]) (m_children curNode))"
| "insertT (firstChar # sequence) val curNode =
     (case child curNode (signed_char firstChar) of
        None \<Rightarrow> None
      | Some slot \<Rightarrow>
          (case insertT sequence val (case slot of None \<Rightarrow> newNode | Some n \<Rightarrow> n) of
             None \<Rightarrow> None
           | Some n \<Rightarrow>
               Some (Node (m_values curNode)
                       ((m_children curNode)(char_of (nat (signed_char firstChar)) := Some n)))))"

text \<open>
  \<open>Trie::findHelper\<close>; \<open>v\<close> is the vector the values are appended to, and \<open>None\<close>
  is an access outside the array of children. The loop variable \<open>i\<close> runs over the
  slot numbers and is compared with the \<open>char\<close> as an \<open>int\<close>.
\<close>

fun findHelper :: "string \<Rightarrow> bool \<Rightarrow> 'v Node option \<Rightarrow> 'v list \<Rightarrow> 'v list option" where
  "findHelper key exactMatchOnly None v = Some v"
| "findHelper [] exactMatchOnly (Some t) v = Some (v @ m_values t)"
| "findHelper (firstChar # rest) exactMatchOnly (Some t) v =
     (case child t (signed_char firstChar) of
        None \<Rightarrow> None
      | Some c \<Rightarrow>
          if exactMatchOnly then findHelper rest True c v
          else fold (\<lambda>i acc. case acc of
                        None \<Rightarrow> None
                      | Some v' \<Rightarrow>
                          if int (of_char i) \<noteq> signed_char firstChar
                          then findHelper rest True (m_children t i) v' else Some v')
                 slots (findHelper rest False c v))"

text \<open>\<open>Trie::find\<close>.\<close>

definition findT :: "string \<Rightarrow> bool \<Rightarrow> 'v Node \<Rightarrow> 'v list option" where
  "findT key exactMatchOnly m_root =
     (case key of
        [] \<Rightarrow> Some ([] @ m_values m_root)
      | firstChar # rest \<Rightarrow>
          (case child m_root (signed_char firstChar) of
             None \<Rightarrow> None
           | Some None \<Rightarrow> Some []
           | Some (Some c) \<Rightarrow> findHelper rest exactMatchOnly (Some c) []))"

section \<open>GenomeMatcher\<close>

text \<open>
  Modelled from the spec: the structs \<open>DNAMatch\<close> and \<open>GenomeMatch\<close> are declared in
  \<open>provided.h\<close>, which is not among the sources. Their fields are those of the
  specification's data model, which are the fields the matcher assigns; the field
  \<open>length\<close> carries a prime to keep it apart from the length of a list. The \<open>double\<close>
  field is a real number here.
\<close>

record DNAMatch =
  genomeName :: string
  length' :: int
  position :: int

record GenomeMatch =
  genomeName :: string
  percentMatch :: real

record GenomeMatcher =
  m_minSearchLength :: int
  m_genomeLibrary :: "Genome list"
  m_sequencedDNA :: "(int \<times> int) Node"

definition GenomeMatcherImpl :: "int \<Rightarrow> GenomeMatcher" where
  "GenomeMatcherImpl minSearchLength =
     \<lparr>m_minSearchLength = minSearchLength, m_genomeLibrary = [], m_sequencedDNA = newNode\<rparr>"

text \<open>
  The loop of \<open>addGenome\<close>, from offset \<open>i\<close> on; it ends at the first failed
  extraction. \<open>None\<close> is an insertion that leaves the arrays of the trie.
\<close>

function addGenomeLoop ::
  "Genome \<Rightarrow> int \<Rightarrow> int \<Rightarrow> int \<Rightarrow> (int \<times> int) Node \<Rightarrow> (int \<times> int) Node option" where
  "addGenomeLoop genome minSearchLength gid i trie =
     (let substring = extractOrError genome i minSearchLength
      in if substring = ''error'' then Some trie
         else (case insertT substring (gid, i) trie of
                 None \<Rightarrow> None
               | Some trie' \<Rightarrow> addGenomeLoop genome minSearchLength gid (i + 1) trie'))"
  by pat_completeness auto
termination
  by (relation "measure (\<lambda>(genome, k, gid, i, trie). nat (int (length (m_sequence genome)) - i))")
     (auto simp: extractOrError_def Genome_extract_def size_t_of_int_def
           split: if_splits option.splits)

text \<open>\<open>addGenome\<close>: the genome's number is the size of the library after the push.\<close>

definition addGenome :: "GenomeMatcher \<Rightarrow> Genome \<Rightarrow> GenomeMatcher option" where
  "addGenome gm genome =
     (let library = m_genomeLibrary gm @ [genome]
      in case addGenomeLoop genome (m_minSearchLength gm) (int (length library)) 0
                (m_sequencedDNA gm) of
           None \<Rightarrow> None
         | Some trie \<Rightarrow> Some (gm\<lparr>m_genomeLibrary := library, m_sequencedDNA := trie\<rparr>))"

definition minimumSearchLength :: "GenomeMatcher \<Rightarrow> int" where
  "minimumSearchLength gm = m_minSearchLength gm"

text \<open>
  The inner loop of \<open>findGenomesWithThisDNA\<close> for one match location: the value of
  \<open>actualLength\<close> when the loop is left. The index of \<open>fragment.at\<close> is in range
  wherever that branch is reached (the loop condition holds and the two strings differ,
  so \<open>1 \<le> actualLength \<le> fragment.size()\<close>).
\<close>

function extendMatch :: "Genome \<Rightarrow> string \<Rightarrow> int \<Rightarrow> int \<Rightarrow> bool \<Rightarrow> int" where
  "extendMatch g fragment currentPosition actualLength snipped =
     (if \<not> size_t_of_int actualLength \<le> length fragment then actualLength
      else let substring = extractOrError g currentPosition actualLength
        in if substring = ''error'' then actualLength
           else if substring = substr fragment 0 (size_t_of_int actualLength) then
             (if size_t_of_int actualLength = length fragment then actualLength
              else extendMatch g fragment currentPosition (actualLength + 1) snipped)
           else if \<not> snipped then
             (if length substring = length fragment then actualLength
              else extendMatch g fragment currentPosition (actualLength + 1) True)
           else if substring ! nat (actualLength - 1) \<noteq> fragment ! nat (actualLength - 1)
             then actualLength - 1
           else if length substring = length fragment then actualLength
           else extendMatch g fragment currentPosition (actualLength + 1) snipped)"
  by pat_completeness auto
termination
  by (relation "measure (\<lambda>(g, fragment, p, actualLength, s).
                   nat (int (length fragment) + 1 - actualLength))")
     (auto simp: size_t_of_int_def split: if_splits)

text \<open>
  \<open>unordered_map<int, DNAMatch> match\<close> as an association list with one entry per key,
  in the order the keys were first inserted. The iteration order of the source's map is
  not specified; nothing below depends on the order chosen here.
\<close>

fun updateMatch :: "int \<Rightarrow> DNAMatch \<Rightarrow> (int \<times> DNAMatch) list \<Rightarrow> (int \<times> DNAMatch) list" where
  "updateMatch k d [] = [(k, d)]"
| "updateMatch k d ((k', d') # m) = (if k' = k then (k, d) # m else (k', d') # updateMatch k d m)"

text \<open>The body of the outer loop for one match location.\<close>

definition processLocation ::
  "GenomeMatcher \<Rightarrow> string \<Rightarrow> int \<Rightarrow> bool \<Rightarrow> int \<times> int \<Rightarrow> (int \<times> DNAMatch) list
     \<Rightarrow> (int \<times> DNAMatch) list" where
  "processLocation gm fragment minimumLength exactMatchOnly loc match =
     (let snipped = exactMatchOnly;
          currentGenome = fst loc;
          currentPosition = snd loc;
          actualLength = extendMatch (m_genomeLibrary gm ! nat (currentGenome - 1)) fragment
                           currentPosition (m_minSearchLength gm) snipped
      in if actualLength < minimumLength then match
         else let d = \<lparr>DNAMatch.genomeName = Genome_name (m_genomeLibrary gm ! nat (currentGenome - 1)),
                        length' = actualLength, position = currentPosition\<rparr>
           in (case map_of match currentGenome of
                 Some old \<Rightarrow> if length' old < length' d then updateMatch currentGenome d match
                             else match
               | None \<Rightarrow> match @ [(currentGenome, d)]))"

text \<open>The map \<open>match\<close> after the outer loop has run over all match locations.\<close>

definition bestMatches ::
  "GenomeMatcher \<Rightarrow> string \<Rightarrow> int \<Rightarrow> bool \<Rightarrow> (int \<times> int) list \<Rightarrow> (int \<times> DNAMatch) list" where
  "bestMatches gm fragment minimumLength exactMatchOnly matchLocations =
     fold (processLocation gm fragment minimumLength exactMatchOnly) matchLocations []"

text \<open>
  \<open>findGenomesWithThisDNA\<close>: the last argument is the caller's vector \<open>matches\<close> at the
  call, the result is the returned flag and the vector after the call, or \<open>None\<close> when
  the lookup of the seeds leaves the arrays of the trie.
\<close>

definition findGenomesWithThisDNA ::
  "GenomeMatcher \<Rightarrow> string \<Rightarrow> int \<Rightarrow> bool \<Rightarrow> DNAMatch list \<Rightarrow> (bool \<times> DNAMatch list) option" where
  "findGenomesWithThisDNA gm fragment minimumLength exactMatchOnly matches =
     (if length fragment < size_t_of_int minimumLength then Some (False, matches)
      else if minimumLength < m_minSearchLength gm then Some (False, matches)
      else let fragSearchKey = substr fragment 0 (size_t_of_int (m_minSearchLength gm))
        in case findT fragSearchKey exactMatchOnly (m_sequencedDNA gm) of
             None \<Rightarrow> None
           | Some matchLocations \<Rightarrow>
               if length matchLocations = 0 then Some (False, [])
               else let match = bestMatches gm fragment minimumLength exactMatchOnly
                                  matchLocations;
                        matches' = [] @ map snd match
                 in if length matches' = 0 then Some (False, matches')
                    else Some (True, matches'))"

text \<open>\<open>genomeMatchCompare\<close>, and \<open>std::sort\<close> with it.\<close>

definition genomeMatchCompare :: "GenomeMatch \<Rightarrow> GenomeMatch \<Rightarrow> bool" where
  "genomeMatchCompare a b =
     (if percentMatch a > percentMatch b then True
      else if percentMatch a < percentMatch b then False
      else if GenomeMatch.genomeName a < GenomeMatch.genomeName b then True else False)"

fun insertMatch :: "GenomeMatch \<Rightarrow> GenomeMatch list \<Rightarrow> GenomeMatch list" where
  "insertMatch x [] = [x]"
| "insertMatch x (y # ys) = (if genomeMatchCompare y x then y # insertMatch x ys else x # y # ys)"

definition sortMatches :: "GenomeMatch list \<Rightarrow> GenomeMatch list" where
  "sortMatches xs = foldr insertMatch xs []"

text \<open>
  The first loop of \<open>findRelatedGenomes\<close> over the window numbers still to do;
  \<open>genomeMatches\<close> is the counter map, whose missing keys read as 0.
\<close>

fun countWindows ::
  "GenomeMatcher \<Rightarrow> Genome \<Rightarrow> int \<Rightarrow> bool \<Rightarrow> int list \<Rightarrow> (string \<Rightarrow> int)
     \<Rightarrow> (string \<Rightarrow> int) option" where
  "countWindows gm query fragmentMatchLength exactMatchOnly [] genomeMatches =
     Some genomeMatches"
| "countWindows gm query fragmentMatchLength exactMatchOnly (i # rest) genomeMatches =
     (let sequence = extractOrError query (i * fragmentMatchLength) fragmentMatchLength
      in if sequence = ''error'' then Some genomeMatches
         else (case findGenomesWithThisDNA gm sequence fragmentMatchLength exactMatchOnly [] of
                 None \<Rightarrow> None
               | Some (found, matches) \<Rightarrow>
                   countWindows gm query fragmentMatchLength exactMatchOnly rest
                     (fold (\<lambda>d c. c(DNAMatch.genomeName d := c (DNAMatch.genomeName d) + 1))
                        matches genomeMatches)))"

text \<open>The second loop: one candidate per library genome, kept when above the threshold.\<close>

definition relatedResults ::
  "Genome list \<Rightarrow> (string \<Rightarrow> int) \<Rightarrow> int \<Rightarrow> real \<Rightarrow> GenomeMatch list" where
  "relatedResults library genomeMatches numSequences matchPercentThreshold =
     filter (\<lambda>g. percentMatch g > matchPercentThreshold)
       (map (\<lambda>cur. \<lparr>GenomeMatch.genomeName = Genome_name cur,
                     percentMatch = (real_of_int (genomeMatches (Genome_name cur))
                                      / real_of_int numSequences) * 100\<rparr>) library)"

text \<open>
  \<open>findRelatedGenomes\<close>. \<open>None\<close> is undefined behaviour: a lookup that leaves the
  arrays of the trie, or the integer division by zero, which needs
  \<open>fragmentMatchLength = 0\<close> and so a matcher built with a minimum search length below 1.
\<close>

definition findRelatedGenomes ::
  "GenomeMatcher \<Rightarrow> Genome \<Rightarrow> int \<Rightarrow> bool \<Rightarrow> real \<Rightarrow> GenomeMatch list
     \<Rightarrow> (bool \<times> GenomeMatch list) option" where
  "findRelatedGenomes gm query fragmentMatchLength exactMatchOnly matchPercentThreshold results =
     (if fragmentMatchLength < m_minSearchLength gm then Some (False, results)
      else if fragmentMatchLength = 0 then None
      else let numSequences = Genome_length query sdiv fragmentMatchLength
        in if numSequences = 0 then Some (False, [])
           else (case countWindows gm query fragmentMatchLength exactMatchOnly
                        [0 .. numSequences - 1] (\<lambda>n. 0) of
                   None \<Rightarrow> None
                 | Some genomeMatches \<Rightarrow>
                     let results' = relatedResults (m_genomeLibrary gm) genomeMatches
                                      numSequences matchPercentThreshold
                     in if length results' = 0 then Some (False, results')
                        else Some (True, sortMatches results')))"

section \<open>Notions used to state the properties\<close>

text \<open>
  The number of indices \<open>i < len\<close> at which the genome has no base at \<open>pos + i\<close>, or
  a base other than \<open>fragment[i]\<close>.
\<close>

definition mismatches :: "Genome \<Rightarrow> int \<Rightarrow> int \<Rightarrow> string \<Rightarrow> nat" where
  "mismatches g pos len fragment =
     length (filter (\<lambda>i. \<not> (nat pos + i < length (m_sequence g) \<and> i < length fragment
                              \<and> m_sequence g ! (nat pos + i) = fragment ! i))
               [0 ..< nat len])"

text \<open>The node reached from \<open>t\<close> along the path \<open>p\<close>, and the values stored there.\<close>

fun nodeAt :: "'v Node \<Rightarrow> string \<Rightarrow> 'v Node option" where
  "nodeAt t [] = Some t"
| "nodeAt t (c # p) = (case m_children t c of None \<Rightarrow> None | Some n \<Rightarrow> nodeAt n p)"

definition valuesAt :: "'v Node \<Rightarrow> string \<Rightarrow> 'v list" where
  "valuesAt t p = (case nodeAt t p of None \<Rightarrow> [] | Some n \<Rightarrow> m_values n)"

text \<open>The number of positions at which two strings of one length differ.\<close>

fun differences :: "string \<Rightarrow> string \<Rightarrow> nat" where
  "differences (a # p) (b # q) = (if a \<noteq> b then 1 else 0) + differences p q"
| "differences p q = 0"

text \<open>
  The paths a lookup of \<open>key\<close> accepts, in the words of the specification: as long as
  the key, the same first character, and past it at most one differing position, or none
  when \<open>exactOnly\<close> is set.
\<close>

definition admissible :: "string \<Rightarrow> bool \<Rightarrow> string \<Rightarrow> bool" where
  "admissible key exactOnly p \<longleftrightarrow>
     length p = length key \<and> hd p = hd key
     \<and> differences (tl p) (tl key) \<le> (if exactOnly then 0 else 1)"

text \<open>The same paths listed in the order in which \<open>findHelper\<close> visits them.\<close>

fun paths :: "string \<Rightarrow> bool \<Rightarrow> string list" where
  "paths [] exactOnly = [[]]"
| "paths (c # rest) exactOnly =
     (if exactOnly then map ((#) c) (paths rest True)
      else map ((#) c) (paths rest False)
           @ concat (map (\<lambda>i. map ((#) i) (paths rest True)) (filter (\<lambda>i. i \<noteq> c) slots)))"

text \<open>The characters whose value as a \<open>char\<close> is not negative.\<close>

definition isAscii :: "char \<Rightarrow> bool" where
  "isAscii c \<longleftrightarrow> (of_char c :: nat) < 128"

text \<open>
  The three operations of the trie with every slot addressed by its own character, and
  no failure. They give the result of the source's operation whenever that stays inside
  the arrays (lemmas \<open>insertT_eq\<close>, \<open>findHelper_Some\<close>, \<open>findT_Some\<close> below), and serve
  to state what the values found are.
\<close>

fun insertT_inRange :: "string \<Rightarrow> 'v \<Rightarrow> 'v Node \<Rightarrow> 'v Node" where
  "insertT_inRange [] val curNode = Node (m_values curNode @ [val]) (m_children curNode)"
| "insertT_inRange (firstChar # sequence) val curNode =
     (let child = (case m_children curNode firstChar of None \<Rightarrow> newNode | Some n \<Rightarrow> n)
      in Node (m_values curNode)
           ((m_children curNode)(firstChar := Some (insertT_inRange sequence val child))))"

fun findHelper_inRange :: "string \<Rightarrow> bool \<Rightarrow> 'v Node option \<Rightarrow> 'v list \<Rightarrow> 'v list" where
  "findHelper_inRange key exactMatchOnly None v = v"
| "findHelper_inRange [] exactMatchOnly (Some t) v = v @ m_values t"
| "findHelper_inRange (firstChar # rest) exactMatchOnly (Some t) v =
     (if exactMatchOnly then findHelper_inRange rest True (m_children t firstChar) v
      else fold (\<lambda>i v'. if i \<noteq> firstChar
                          then findHelper_inRange rest True (m_children t i) v' else v')
             slots (findHelper_inRange rest False (m_children t firstChar) v))"

definition findT_inRange :: "string \<Rightarrow> bool \<Rightarrow> 'v Node \<Rightarrow> 'v list" where
  "findT_inRange key exactMatchOnly m_root =
     (case key of
        [] \<Rightarrow> [] @ m_values m_root
      | firstChar # rest \<Rightarrow>
          (case m_children m_root firstChar of
             None \<Rightarrow> []
           | Some c \<Rightarrow> findHelper_inRange rest exactMatchOnly (Some c) []))"

text \<open>
  The seed hits the trie holds for the first \<open>k\<close> characters of the fragment, which
  are the match locations of a call whose lookup has a result (lemma \<open>findT_Some\<close>),
  and the length the extension of one seed ends with.
\<close>

definition seedHits :: "GenomeMatcher \<Rightarrow> string \<Rightarrow> bool \<Rightarrow> (int \<times> int) list" where
  "seedHits gm fragment exactOnly =
     findT_inRange (substr fragment 0 (size_t_of_int (m_minSearchLength gm))) exactOnly
       (m_sequencedDNA gm)"

definition seedLength :: "GenomeMatcher \<Rightarrow> string \<Rightarrow> bool \<Rightarrow> int \<times> int \<Rightarrow> int" where
  "seedLength gm fragment exactOnly loc =
     extendMatch (m_genomeLibrary gm ! nat (fst loc - 1)) fragment (snd loc)
       (m_minSearchLength gm) exactOnly"

text \<open>What the map holds after the seeds \<open>xs\<close> have been processed.\<close>

definition bestOf ::
  "GenomeMatcher \<Rightarrow> string \<Rightarrow> int \<Rightarrow> bool \<Rightarrow> (int \<times> int) list \<Rightarrow> int \<Rightarrow> DNAMatch option \<Rightarrow> bool" where
  "bestOf gm fragment minimumLength exactOnly xs gid entry =
     (case entry of
        None \<Rightarrow> (\<forall>pos. (gid, pos) \<in> set xs \<longrightarrow>
                    seedLength gm fragment exactOnly (gid, pos) < minimumLength)
      | Some d \<Rightarrow>
          DNAMatch.genomeName d = Genome_name (m_genomeLibrary gm ! nat (gid - 1))
          \<and> (gid, position d) \<in> set xs
          \<and> seedLength gm fragment exactOnly (gid, position d) = length' d
          \<and> minimumLength \<le> length' d
          \<and> (\<forall>pos. (gid, pos) \<in> set xs \<longrightarrow>
                 seedLength gm fragment exactOnly (gid, pos) \<le> length' d))"

text \<open>
  The equations of the two loops are applied by hand at the step wanted, not by the
  simplifier.
\<close>

declare addGenomeLoop.simps [simp del]

declare extendMatch.simps [simp del]

text \<open>The states of a matcher: built by the constructor, then by calls of \<open>addGenome\<close>.\<close>

inductive reachable :: "GenomeMatcher \<Rightarrow> bool" where
  initial: "reachable (GenomeMatcherImpl minSearchLength)"
| added: "reachable gm \<Longrightarrow> addGenome gm genome = Some gm' \<Longrightarrow> reachable gm'"

text \<open>Every seed in the trie carries the number of a genome of the library.\<close>

definition seedsInLibrary :: "GenomeMatcher \<Rightarrow> bool" where
  "seedsInLibrary gm \<longleftrightarrow>
     (\<forall>key loc. loc \<in> set (valuesAt (m_sequencedDNA gm) key) \<longrightarrow>
        1 \<le> fst loc \<and> fst loc \<le> int (length (m_genomeLibrary gm)))"

text \<open>
  Every seed in the trie was extracted from its genome: it is filed under the \<open>k\<close>
  characters found at its position.
\<close>

definition seedsExtracted :: "GenomeMatcher \<Rightarrow> bool" where
  "seedsExtracted gm \<longleftrightarrow>
     (\<forall>key loc. loc \<in> set (valuesAt (m_sequencedDNA gm) key) \<longrightarrow>
        Genome_extract (m_genomeLibrary gm ! nat (fst loc - 1)) (snd loc) (m_minSearchLength gm)
          = Some key)"

section \<open>Genome\<close>

lemma size_t_of_int_nonneg: "0 \<le> i \<Longrightarrow> size_t_of_int i = nat i"
  by (simp add: size_t_of_int_def)

lemma size_t_of_int_neg: "i < 0 \<Longrightarrow> size_t_of_int i = nat (i + 2 ^ 64)"
  by (simp add: size_t_of_int_def)

text \<open>
  For 32-bit arguments of either sign, and a sequence whose length fits an \<open>int\<close>: a
  negative length is read as a huge unsigned one, so the extraction fails when
  \<open>pos + len\<close> is negative and returns the whole rest of the sequence otherwise.
\<close>

lemma Genome_extract_any_length:
  assumes "length (m_sequence g) < 2 ^ 31" and "is_int pos" and "is_int len"
  shows "Genome_extract g pos len =
     (if 0 \<le> pos \<and> pos < Genome_length g
          \<and> 0 \<le> pos + len \<and> pos + len \<le> Genome_length g
      then Some (if 0 \<le> len then take (nat len) (drop (nat pos) (m_sequence g))
                 else drop (nat pos) (m_sequence g))
      else None)"
proof (cases "0 \<le> pos \<and> pos < Genome_length g")
  case False
  then show ?thesis
    by (auto simp: Genome_extract_def Genome_length_def size_t_of_int_def)
next
  case inside: True
  show ?thesis
  proof (cases "pos + len < 0")
    case True
    with assms inside have "size_t_of_int (pos + len) > length (m_sequence g)"
      by (simp add: size_t_of_int_def is_int_def) arith
    with True inside show ?thesis
      by (simp add: Genome_extract_def Genome_length_def)
  next
    case sum: False
    show ?thesis
    proof (cases "0 \<le> len")
      case True
      with sum inside show ?thesis
        by (auto simp: Genome_extract_def Genome_length_def size_t_of_int_def substr_def)
    next
      case False
      with assms have "size_t_of_int len \<ge> length (drop (nat pos) (m_sequence g))"
        by (simp add: size_t_of_int_def is_int_def)
      then have "substr (m_sequence g) (nat pos) (size_t_of_int len)
                  = drop (nat pos) (m_sequence g)"
        unfolding substr_def by (rule take_all)
      with False sum inside show ?thesis
        by (auto simp: Genome_extract_def Genome_length_def size_t_of_int_nonneg)
    qed
  qed
qed

lemma Genome_extract_nonneg:
  assumes "0 \<le> len"
  shows "Genome_extract g pos len =
     (if 0 \<le> pos \<and> pos < Genome_length g \<and> pos + len \<le> Genome_length g
      then Some (take (nat len) (drop (nat pos) (m_sequence g)))
      else None)"
  using assms
  unfolding Genome_extract_def Genome_length_def size_t_of_int_def substr_def
  by (auto simp: not_less not_le nat_le_iff le_nat_iff nat_less_iff)

text \<open>
  Claim C8, as the code has it. For a length that is not negative, the extraction
  succeeds and yields the substring at \<open>[pos, pos + len)\<close> exactly when
  \<open>0 \<le> pos < g.length\<close> and \<open>pos + len \<le> g.length\<close>; on every other input it fails
  and yields nothing.
\<close>

theorem Genome_extract_iff:
  assumes "0 \<le> len"
  shows "Genome_extract g pos len =
     (if 0 \<le> pos \<and> pos < Genome_length g \<and> pos + len \<le> Genome_length g
      then Some (take (nat len) (drop (nat pos) (m_sequence g)))
      else None)"
  using assms by (rule Genome_extract_nonneg)

theorem Genome_extract_iff_witness:
  "(0::int) \<le> 2 \<and> Genome_extract (GenomeImpl ''g'' ''ACGT'') 1 2 = Some ''CG''
   \<and> Genome_extract (GenomeImpl ''g'' ''ACGT'') 3 2 = None"
  using Genome_extract_iff [of 2 "GenomeImpl ''g'' ''ACGT''" 1]
        Genome_extract_iff [of 2 "GenomeImpl ''g'' ''ACGT''" 3]
  by (simp add: GenomeImpl_def Genome_length_def)

text \<open>
  The claim as it was stated fails: with \<open>pos = g.length\<close> and \<open>len = 0\<close> the stated
  condition holds and the extraction fails, and with a negative \<open>len\<close> the extraction
  can succeed with a string that is not the substring at \<open>[pos, pos + len)\<close>.
\<close>

theorem Genome_extract_counterexample:
  "(0::int) \<le> 4 \<and> 4 + 0 \<le> Genome_length (GenomeImpl ''g'' ''ACGT'')
   \<and> Genome_extract (GenomeImpl ''g'' ''ACGT'') 4 0 = None
   \<and> (0::int) \<le> 2 \<and> 2 + (- 1) \<le> Genome_length (GenomeImpl ''g'' ''ACGT'')
   \<and> Genome_extract (GenomeImpl ''g'' ''ACGT'') 2 (- 1) = Some ''GT''"
  by (simp add: Genome_extract_def GenomeImpl_def Genome_length_def size_t_of_int_def substr_def)

lemma Genome_extract_set:
  "Genome_extract g pos len = Some fragment \<Longrightarrow> set fragment \<subseteq> set (m_sequence g)"
  by (auto simp: Genome_extract_def substr_def split: if_splits dest: in_set_takeD in_set_dropD)

text \<open>
  Claim C9, as the code has it. The constructor stores the sequence as it is given, with
  no change of case; a successful extraction returns characters of that sequence only, so
  it returns uppercase characters only whenever the sequence given to the constructor
  was in uppercase.
\<close>

theorem Genome_stores_sequence_as_given:
  assumes "Genome_extract (GenomeImpl nm sequence) pos len = Some fragment"
  shows "m_sequence (GenomeImpl nm sequence) = sequence
         \<and> set fragment \<subseteq> set sequence
         \<and> (list_all (\<lambda>c. toupper c = c) sequence \<longrightarrow> list_all (\<lambda>c. toupper c = c) fragment)"
  using Genome_extract_set [OF assms] by (auto simp: GenomeImpl_def list_all_iff)

theorem Genome_stores_sequence_as_given_witness:
  "Genome_extract (GenomeImpl ''g'' ''ACGT'') 1 2 = Some ''CG''
   \<and> list_all (\<lambda>c. toupper c = c) ''ACGT''
   \<and> list_all (\<lambda>c. toupper c = c) ''CG''"
proof -
  have h: "Genome_extract (GenomeImpl ''g'' ''ACGT'') 1 2 = Some ''CG''"
    by (simp add: Genome_extract_def GenomeImpl_def size_t_of_int_def substr_def)
  have u: "list_all (\<lambda>c. toupper c = c) ''ACGT''"
    by code_simp
  from Genome_stores_sequence_as_given [OF h] u h show ?thesis
    by simp
qed

text \<open>
  The claim as it was stated fails on a sequence with lowercase letters: it is stored
  and extracted in lowercase.
\<close>

theorem Genome_uppercase_counterexample:
  "m_sequence (GenomeImpl ''g'' ''acgt'') \<noteq> map toupper ''acgt''
   \<and> Genome_extract (GenomeImpl ''g'' ''acgt'') 0 4 = Some ''acgt''
   \<and> toupper (CHR ''a'') \<noteq> CHR ''a''"
  by code_simp

section \<open>The values a lookup collects\<close>

lemma valuesAt_Nil: "valuesAt t [] = m_values t"
  by (simp add: valuesAt_def)

lemma valuesAt_Cons:
  "valuesAt t (c # p) = (case m_children t c of None \<Rightarrow> [] | Some n \<Rightarrow> valuesAt n p)"
  by (cases "m_children t c") (simp_all add: valuesAt_def)

lemma findHelper_None: "findHelper_inRange key e None v = v"
  by (cases key) simp_all

lemma fold_skip_append:
  assumes "\<And>i v. f i v = v @ f i []"
  shows "fold (\<lambda>i v. if i \<noteq> c then f i v else v) xs v
         = v @ concat (map (\<lambda>i. f i []) (filter (\<lambda>i. i \<noteq> c) xs))"
proof (induction xs arbitrary: v)
  case Nil
  show ?case by simp
next
  case (Cons x xs)
  show ?case
  proof (cases "x = c")
    case True
    then show ?thesis by (simp add: Cons.IH)
  next
    case False
    have "fold (\<lambda>i v. if i \<noteq> c then f i v else v) (x # xs) v
            = f x v @ concat (map (\<lambda>i. f i []) (filter (\<lambda>i. i \<noteq> c) xs))"
      using False by (simp add: Cons.IH)
    also have "f x v = v @ f x []"
      by (rule assms)
    finally show ?thesis
      using False by simp
  qed
qed

lemma findHelper_append: "findHelper_inRange key e t v = v @ findHelper_inRange key e t []"
proof (induction key arbitrary: e t v)
  case Nil
  show ?case by (cases t) simp_all
next
  case (Cons c rest)
  show ?case
  proof (cases t)
    case None
    then show ?thesis by simp
  next
    case (Some n)
    have acc: "\<And>i v. findHelper_inRange rest True (m_children n i) v
                 = v @ findHelper_inRange rest True (m_children n i) []"
      by (rule Cons.IH)
    have a: "fold (\<lambda>i v'. if i \<noteq> c then findHelper_inRange rest True (m_children n i) v' else v') slots w
          = w @ concat (map (\<lambda>i. findHelper_inRange rest True (m_children n i) [])
                          (filter (\<lambda>i. i \<noteq> c) slots))" for w
      by (rule fold_skip_append) (rule acc)
    show ?thesis
    proof (cases e)
      case True
      have "findHelper_inRange (c # rest) e t v = findHelper_inRange rest True (m_children n c) v"
        using True Some by simp
      also have "\<dots> = v @ findHelper_inRange rest True (m_children n c) []"
        by (rule Cons.IH)
      also have "\<dots> = v @ findHelper_inRange (c # rest) e t []"
        using True Some by simp
      finally show ?thesis .
    next
      case False
      have "findHelper_inRange (c # rest) e t v
              = findHelper_inRange rest False (m_children n c) v
                @ concat (map (\<lambda>i. findHelper_inRange rest True (m_children n i) [])
                            (filter (\<lambda>i. i \<noteq> c) slots))"
        using False Some by (simp add: a)
      also have "findHelper_inRange rest False (m_children n c) v
                   = v @ findHelper_inRange rest False (m_children n c) []"
        by (rule Cons.IH)
      also have "(v @ findHelper_inRange rest False (m_children n c) [])
                @ concat (map (\<lambda>i. findHelper_inRange rest True (m_children n i) [])
                            (filter (\<lambda>i. i \<noteq> c) slots))
              = v @ findHelper_inRange (c # rest) e t []"
        using False Some by (simp add: a)
      finally show ?thesis .
    qed
  qed
qed

lemma findHelper_Cons_approx:
  "findHelper_inRange (c # rest) False (Some n) []
     = findHelper_inRange rest False (m_children n c) []
       @ concat (map (\<lambda>i. findHelper_inRange rest True (m_children n i) [])
                   (filter (\<lambda>i. i \<noteq> c) slots))"
proof -
  have "fold (\<lambda>i v'. if i \<noteq> c then findHelper_inRange rest True (m_children n i) v' else v') slots w
            = w @ concat (map (\<lambda>i. findHelper_inRange rest True (m_children n i) [])
                            (filter (\<lambda>i. i \<noteq> c) slots))" for w
    by (rule fold_skip_append) (rule findHelper_append)
  then show ?thesis by simp
qed

lemma concat_map_Nil: "concat (map (\<lambda>x. []) xs) = []"
  by (induction xs) simp_all

lemma findHelper_paths:
  "findHelper_inRange key e t [] = (case t of None \<Rightarrow> [] | Some n \<Rightarrow> concat (map (valuesAt n) (paths key e)))"
proof (induction key arbitrary: e t)
  case Nil
  show ?case by (cases t) (simp_all add: valuesAt_Nil)
next
  case (Cons c rest)
  show ?case
  proof (cases t)
    case None
    then show ?thesis by simp
  next
    case (Some n)
    have sub: "concat (map (valuesAt n) (map ((#) i) ps))
                 = findHelper_inRange rest b (m_children n i) []" if "ps = paths rest b" for i ps b
      unfolding that Cons.IH [of b "m_children n i"]
      by (cases "m_children n i") (simp_all add: valuesAt_Cons comp_def concat_map_Nil)
    show ?thesis
    proof (cases e)
      case True
      with Some sub [of "paths rest True" True c] show ?thesis by simp
    next
      case False
      have "concat (map (valuesAt n) (concat (map (\<lambda>i. map ((#) i) (paths rest True)) xs)))
              = concat (map (\<lambda>i. findHelper_inRange rest True (m_children n i) []) xs)" for xs
        by (induction xs) (simp_all add: sub [of "paths rest True" True] del: map_map)
      with False Some sub [of "paths rest False" False c] show ?thesis
        by (simp add: findHelper_Cons_approx del: findHelper_inRange.simps map_map)
    qed
  qed
qed

lemma set_slots: "set slots = UNIV"
  by (simp add: slots_def enum_UNIV)

lemma distinct_slots: "distinct slots"
  by (simp add: slots_def enum_distinct)

lemma differences_same: "differences p p = 0"
  by (induction p) simp_all

lemma in_paths_Cons_exact:
  "a # q \<in> set (paths (c # rest) True) \<longleftrightarrow> a = c \<and> q \<in> set (paths rest True)"
  by auto

lemma in_paths_Cons_approx:
  "a # q \<in> set (paths (c # rest) False)
     \<longleftrightarrow> (a = c \<and> q \<in> set (paths rest False)) \<or> (a \<noteq> c \<and> q \<in> set (paths rest True))"
  by (auto simp: set_slots)

lemma Nil_notin_paths_Cons: "[] \<notin> set (paths (c # rest) e)"
  by auto

lemma in_paths:
  "p \<in> set (paths key e)
     \<longleftrightarrow> length p = length key \<and> differences p key \<le> (if e then 0 else 1)"
proof (induction key arbitrary: e p)
  case Nil
  show ?case by auto
next
  case (Cons c rest)
  show ?case
  proof (cases p)
    case Nil
    then show ?thesis using Nil_notin_paths_Cons [of c rest e] by simp
  next
    case p: (Cons a q)
    show ?thesis
    proof (cases e)
      case True
      then have e: "e = True" by simp
      show ?thesis
        unfolding p e in_paths_Cons_exact Cons.IH by auto
    next
      case False
      then have e: "e = False" by simp
      show ?thesis
        unfolding p e in_paths_Cons_approx Cons.IH by auto
    qed
  qed
qed

lemma paths_refl: "key \<in> set (paths key e)"
  by (simp add: in_paths differences_same)

lemma distinct_concat_Cons:
  "distinct xs \<Longrightarrow> distinct ps \<Longrightarrow> distinct (concat (map (\<lambda>i. map ((#) i) ps) xs))"
  by (induction xs) (auto simp: distinct_map)

lemma distinct_paths: "distinct (paths key e)"
proof (induction key arbitrary: e)
  case Nil
  show ?case by simp
next
  case (Cons c rest)
  have "distinct (concat (map (\<lambda>i. map ((#) i) (paths rest True)) (filter (\<lambda>i. i \<noteq> c) slots)))"
    by (rule distinct_concat_Cons) (simp_all add: distinct_slots Cons.IH)
  then show ?case
    by (auto simp: distinct_map Cons.IH)
qed

lemma findT_paths:
  "findT_inRange (c # rest) e trie = concat (map (valuesAt trie) (map ((#) c) (paths rest e)))"
proof (cases "m_children trie c")
  case None
  then show ?thesis
    by (simp add: findT_inRange_def valuesAt_Cons comp_def concat_map_Nil)
next
  case (Some n)
  then show ?thesis
    by (simp add: findT_inRange_def findHelper_paths valuesAt_Cons comp_def del: findHelper_inRange.simps)
qed

lemma admissible_Cons:
  "admissible (c # rest) e p \<longleftrightarrow> p \<in> (#) c ` set (paths rest e)"
  by (cases p) (auto simp: admissible_def in_paths)

lemma findT_exact: "findT_inRange key True trie = valuesAt trie key"
proof (cases key)
  case Nil
  then show ?thesis by (simp add: findT_inRange_def valuesAt_Nil)
next
  case (Cons c rest)
  have "paths rest True = [rest]" for rest
    by (induction rest) simp_all
  with Cons show ?thesis by (simp add: findT_paths)
qed

lemma valuesAt_newNode: "valuesAt newNode p = []"
  by (cases p) (simp_all add: valuesAt_def newNode_def)

lemma valuesAt_insertT:
  "valuesAt (insertT_inRange key v t) q = (if q = key then valuesAt t q @ [v] else valuesAt t q)"
proof (induction key arbitrary: t q)
  case Nil
  show ?case by (cases q) (simp_all add: valuesAt_Nil valuesAt_Cons)
next
  case (Cons c rest)
  show ?case
  proof (cases q)
    case Nil
    then show ?thesis by (simp add: valuesAt_Nil Let_def)
  next
    case q: (Cons a q')
    show ?thesis
    proof (cases "m_children t c")
      case None
      with q show ?thesis
        by (simp add: valuesAt_Cons Let_def Cons.IH valuesAt_newNode)
    next
      case (Some n)
      with q show ?thesis
        by (simp add: valuesAt_Cons Let_def Cons.IH)
    qed
  qed
qed

lemma findT_values:
  "loc \<in> set (findT_inRange key e trie) \<Longrightarrow> \<exists>p. loc \<in> set (valuesAt trie p)"
proof (cases key)
  case Nil
  assume "loc \<in> set (findT_inRange key e trie)"
  with Nil have "loc \<in> set (valuesAt trie [])"
    by (simp add: findT_inRange_def valuesAt_Nil)
  then show ?thesis ..
next
  case (Cons c rest)
  assume "loc \<in> set (findT_inRange key e trie)"
  with Cons show ?thesis
    by (auto simp: findT_paths)
qed

lemma findT_admissible:
  assumes "loc \<in> set (findT_inRange key e trie)" and "key \<noteq> []"
  shows "\<exists>p. admissible key e p \<and> loc \<in> set (valuesAt trie p)"
proof -
  from assms(2) obtain c rest where key: "key = c # rest"
    by (cases key) auto
  from assms(1) obtain p where "p \<in> (#) c ` set (paths rest e)" "loc \<in> set (valuesAt trie p)"
    unfolding key findT_paths by auto
  then show ?thesis
    unfolding key admissible_Cons by blast
qed

lemma admissible_differences:
  assumes "admissible key e p" and "key \<noteq> []"
  shows "length p = length key \<and> hd p = hd key \<and> differences p key \<le> 1"
proof -
  from assms(2) obtain c rest where key: "key = c # rest"
    by (cases key) auto
  from assms(1) obtain q where "p = c # q" "length q = length rest"
    "differences q rest \<le> (if e then 0 else 1)"
    unfolding key by (cases p) (auto simp: admissible_def)
  then show ?thesis
    by (auto simp: key split: if_splits)
qed

section \<open>The trie inside its arrays\<close>

lemma signed_char_ascii: "isAscii c \<Longrightarrow> signed_char c = int (of_char c)"
  by (simp add: signed_char_def isAscii_def)

lemma signed_char_negative: "\<not> isAscii c \<Longrightarrow> signed_char c < 0"
proof -
  assume "\<not> isAscii c"
  moreover have "(of_char c :: nat) < 256"
    by simp
  ultimately show ?thesis
    by (simp add: signed_char_def isAscii_def)
qed

lemma child_signed_char:
  "child t (signed_char c) = (if isAscii c then Some (m_children t c) else None)"
proof (cases "isAscii c")
  case True
  then have "(of_char c :: nat) < 128"
    by (simp add: isAscii_def)
  with True show ?thesis
    by (simp add: child_def signed_char_ascii POSSIBLE_CHARACTERS_def)
next
  case False
  with signed_char_negative [OF False] show ?thesis
    by (simp add: child_def)
qed

lemma slot_signed_char: "isAscii c \<Longrightarrow> char_of (nat (signed_char c)) = c"
  by (simp add: signed_char_ascii)

lemma slot_differs: "isAscii c \<Longrightarrow> int (of_char i) \<noteq> signed_char c \<longleftrightarrow> i \<noteq> c"
proof -
  assume "isAscii c"
  then have "int (of_char i) = signed_char c \<longleftrightarrow> (of_char i :: nat) = of_char c"
    by (simp add: signed_char_ascii)
  also have "\<dots> \<longleftrightarrow> i = c"
    by simp
  finally show ?thesis by simp
qed

lemma insertT_eq:
  "insertT key val t = (if list_all isAscii key then Some (insertT_inRange key val t) else None)"
proof (induction key arbitrary: t)
  case Nil
  show ?case by simp
next
  case (Cons c key)
  show ?case
  proof (cases "isAscii c")
    case False
    then show ?thesis by (simp add: child_signed_char)
  next
    case True
    then show ?thesis
      by (simp add: child_signed_char slot_signed_char Cons.IH Let_def)
  qed
qed

lemma fold_option_None:
  "fold (\<lambda>i acc. case acc of None \<Rightarrow> None | Some a \<Rightarrow> h i a) xs None = None"
  by (induction xs) simp_all

lemma fold_option_defined:
  assumes "\<And>i a. f i a = Some (g i a)"
  shows "fold (\<lambda>i acc. case acc of None \<Rightarrow> None
                        | Some a \<Rightarrow> if P i then f i a else Some a) xs (Some a0)
         = Some (fold (\<lambda>i a. if P i then g i a else a) xs a0)"
  by (induction xs arbitrary: a0) (simp_all add: assms)

lemma fold_option_result:
  assumes "\<And>i a b. f i a = Some b \<Longrightarrow> b = g i a"
    and "fold (\<lambda>i acc. case acc of None \<Rightarrow> None
                        | Some a \<Rightarrow> if P i then f i a else Some a) xs (Some a0) = Some r"
  shows "r = fold (\<lambda>i a. if P i then g i a else a) xs a0"
  using assms(2)
proof (induction xs arbitrary: a0)
  case Nil
  then show ?case by simp
next
  case (Cons x xs)
  show ?case
  proof (cases "P x")
    case False
    with Cons show ?thesis by simp
  next
    case True
    show ?thesis
    proof (cases "f x a0")
      case None
      with True Cons.prems show ?thesis
        by (simp add: fold_option_None)
    next
      case (Some b)
      then have "b = g x a0" by (rule assms(1))
      with True Some Cons show ?thesis by simp
    qed
  qed
qed

lemma findHelper_ascii:
  "list_all isAscii key \<Longrightarrow> findHelper key e t v = Some (findHelper_inRange key e t v)"
proof (induction key arbitrary: e t v)
  case Nil
  show ?case by (cases t) simp_all
next
  case (Cons c rest)
  then have c: "isAscii c" and rest: "list_all isAscii rest"
    by simp_all
  show ?case
  proof (cases t)
    case None
    then show ?thesis by simp
  next
    case (Some n)
    have loop: "fold (\<lambda>i acc. case acc of None \<Rightarrow> None
                        | Some v' \<Rightarrow> if i \<noteq> c then findHelper rest True (m_children n i) v'
                                      else Some v') slots (Some w)
          = Some (fold (\<lambda>i v'. if i \<noteq> c then findHelper_inRange rest True (m_children n i) v'
                                else v') slots w)" for w
      by (rule fold_option_defined) (rule Cons.IH [OF rest])
    show ?thesis
    proof (cases e)
      case True
      with Some c show ?thesis
        by (simp add: child_signed_char Cons.IH [OF rest])
    next
      case False
      with Some c show ?thesis
        by (simp add: child_signed_char slot_differs Cons.IH [OF rest] loop)
    qed
  qed
qed

lemma findHelper_Some:
  "findHelper key e t v = Some r \<Longrightarrow> r = findHelper_inRange key e t v"
proof (induction key arbitrary: e t v r)
  case Nil
  then show ?case by (cases t) simp_all
next
  case (Cons c rest)
  show ?case
  proof (cases t)
    case None
    with Cons.prems show ?thesis by simp
  next
    case (Some n)
    have c: "isAscii c"
    proof (rule ccontr)
      assume "\<not> isAscii c"
      with Cons.prems Some show False
        by (simp add: child_signed_char)
    qed
    show ?thesis
    proof (cases e)
      case True
      with Cons.prems Some c have "findHelper rest True (m_children n c) v = Some r"
        by (simp add: child_signed_char)
      then have "r = findHelper_inRange rest True (m_children n c) v"
        by (rule Cons.IH)
      with True Some show ?thesis by simp
    next
      case False
      let ?step = "\<lambda>i acc. case acc of None \<Rightarrow> None
                     | Some v' \<Rightarrow> if i \<noteq> c then findHelper rest True (m_children n i) v'
                                   else Some v'"
      from Cons.prems Some c False
      have run: "fold ?step slots (findHelper rest False (m_children n c) v) = Some r"
        by (simp add: child_signed_char slot_differs)
      show ?thesis
      proof (cases "findHelper rest False (m_children n c) v")
        case None
        with run show ?thesis
          by (simp add: fold_option_None)
      next
        case first: (Some w)
        then have w: "w = findHelper_inRange rest False (m_children n c) v"
          by (rule Cons.IH)
        from run first have "fold ?step slots (Some w) = Some r"
          by simp
        then have "r = fold (\<lambda>i v'. if i \<noteq> c then findHelper_inRange rest True (m_children n i) v'
                                      else v') slots w"
          by (rule fold_option_result [rotated]) (rule Cons.IH)
        with w False Some show ?thesis by simp
      qed
    qed
  qed
qed

lemma findT_ascii:
  "list_all isAscii key \<Longrightarrow> findT key e trie = Some (findT_inRange key e trie)"
  by (cases key)
     (auto simp: findT_def findT_inRange_def child_signed_char findHelper_ascii
           split: option.splits)

lemma findT_Some: "findT key e trie = Some r \<Longrightarrow> r = findT_inRange key e trie"
proof (cases key)
  case Nil
  assume "findT key e trie = Some r"
  with Nil show ?thesis
    by (simp add: findT_def findT_inRange_def)
next
  case (Cons c rest)
  assume r: "findT key e trie = Some r"
  show ?thesis
  proof (cases "isAscii c")
    case False
    with r Cons show ?thesis
      by (simp add: findT_def child_signed_char)
  next
    case True
    show ?thesis
    proof (cases "m_children trie c")
      case None
      with r Cons True show ?thesis
        by (simp add: findT_def findT_inRange_def child_signed_char)
    next
      case (Some n)
      with r Cons True have "findHelper rest e (Some n) [] = Some r"
        by (simp add: findT_def child_signed_char)
      then have "r = findHelper_inRange rest e (Some n) []"
        by (rule findHelper_Some)
      with Cons Some show ?thesis
        by (simp add: findT_inRange_def)
    qed
  qed
qed

text \<open>
  For a key that is not empty and whose characters are not negative as \<open>char\<close>s,
  \<open>find\<close> has a result, and it holds exactly the values stored at the nodes reached
  by the admissible paths: as a set, and with the multiplicities of the stored values
  added up over the paths. When the root has no child for the first character, the
  result is empty.
\<close>

lemma find_characterisation:
  assumes "key \<noteq> []" and "list_all isAscii key"
  shows "\<exists>r. findT key exactOnly trie = Some r
           \<and> set r = {v. \<exists>p. admissible key exactOnly p \<and> v \<in> set (valuesAt trie p)}
           \<and> mset r = (\<Sum>p | admissible key exactOnly p. mset (valuesAt trie p))
           \<and> (m_children trie (hd key) = None \<longrightarrow> r = [])"
proof -
  from assms(1) obtain c rest where key: "key = c # rest"
    by (cases key) auto
  let ?r = "findT_inRange key exactOnly trie"
  let ?ps = "map ((#) c) (paths rest exactOnly)"
  have adm: "{p. admissible key exactOnly p} = set ?ps"
    by (auto simp: key admissible_Cons)
  have dist: "distinct ?ps"
    by (simp add: distinct_map distinct_paths)
  have eq: "?r = concat (map (valuesAt trie) ?ps)"
    unfolding key by (rule findT_paths)
  have "set ?r = (\<Union>p\<in>set ?ps. set (valuesAt trie p))"
    unfolding eq by simp
  also have "\<dots> = {v. \<exists>p. admissible key exactOnly p \<and> v \<in> set (valuesAt trie p)}"
    unfolding adm [symmetric] by auto
  finally have s: "set ?r = {v. \<exists>p. admissible key exactOnly p \<and> v \<in> set (valuesAt trie p)}" .
  have "mset ?r = sum_list (map (\<lambda>p. mset (valuesAt trie p)) ?ps)"
    unfolding eq by (simp add: mset_concat comp_def)
  also have "\<dots> = (\<Sum>p\<in>set ?ps. mset (valuesAt trie p))"
    using dist by (rule sum_list_distinct_conv_sum_set)
  finally have m: "mset ?r = (\<Sum>p | admissible key exactOnly p. mset (valuesAt trie p))"
    unfolding adm .
  have e: "m_children trie (hd key) = None \<longrightarrow> ?r = []"
    by (simp add: key findT_inRange_def)
  have "findT key exactOnly trie = Some ?r"
    using assms(2) by (rule findT_ascii)
  with s m e show ?thesis
    by (intro exI [of _ ?r] conjI)
qed

text \<open>
  Claim C1 at inputs where the code departs from it. A key may hold any byte, and a
  node has a slot for each of the 256, yet the slot is addressed with the \<open>char\<close>
  itself: for the byte \<open>0x80\<close> that is index \<open>-128\<close>, outside the array. So the
  lookup of the key \<open>0x80\<close> in the empty trie, where the claim has the empty result,
  reads outside the root's array; so does the lookup of \<open>A 0x80\<close> once the key \<open>AC\<close>
  is stored; and the insertion under the key \<open>0x80\<close> writes outside it.
\<close>

theorem find_outside_the_slots:
  "signed_char (CHR 0x80) = - 128
   \<and> child (newNode :: nat Node) (signed_char (CHR 0x80)) = None
   \<and> findT [CHR 0x80] True (newNode :: nat Node) = None
   \<and> findT [CHR 0x80] False (newNode :: nat Node) = None
   \<and> (insertT ''AC'' (7 :: nat) newNode \<bind> findT [CHR ''A'', CHR 0x80] True) = None
   \<and> insertT [CHR 0x80] (7 :: nat) newNode = None"
  by code_simp

section \<open>Indexing a genome\<close>

lemma Genome_extract_inside:
  assumes "0 \<le> i" and "0 \<le> k" and "i + k \<le> Genome_length g" and "i < Genome_length g"
  shows "Genome_extract g i k = Some (substr (m_sequence g) (nat i) (nat k))"
  using assms unfolding Genome_extract_def Genome_length_def size_t_of_int_def
  by (simp add: not_less not_le nat_le_iff le_nat_iff)

lemma Genome_extract_outside:
  assumes "0 \<le> i" and "0 \<le> k" and "Genome_length g < i + k"
  shows "Genome_extract g i k = None"
  using assms unfolding Genome_extract_def Genome_length_def size_t_of_int_def
  by (simp add: not_less not_le nat_le_iff le_nat_iff nat_less_iff)

lemma error_not_bases: "list_all isBase s \<Longrightarrow> s \<noteq> ''error''"
  by (auto simp: isBase_def)

lemma substr_bases: "list_all isBase s \<Longrightarrow> list_all isBase (substr s i n)"
  by (auto simp: substr_def list_all_iff dest: in_set_takeD in_set_dropD)

lemma bases_ascii: "list_all isBase s \<Longrightarrow> list_all isAscii s"
proof -
  have "isAscii c" if "isBase c" for c
    using that by (auto simp: isBase_def isAscii_def)
  then show "list_all isBase s \<Longrightarrow> list_all isAscii s"
    by (auto simp: list_all_iff)
qed

lemma addGenomeLoop_valuesAt:
  assumes "list_all isBase (m_sequence g)" and "1 \<le> k" and "0 \<le> i"
  shows "\<exists>t'. addGenomeLoop g k gid i t = Some t'
           \<and> (\<forall>key. valuesAt t' key
                 = valuesAt t key
                   @ map (\<lambda>j. (gid, j))
                       (filter (\<lambda>j. substr (m_sequence g) (nat j) (nat k) = key)
                          [i .. Genome_length g - k]))"
  using assms
proof (induction g k gid i t rule: addGenomeLoop.induct)
  case (1 genome k gid i trie)
  show ?case
  proof (cases "i + k \<le> Genome_length genome")
    case False
    with 1 have "Genome_extract genome i k = None"
      by (simp add: Genome_extract_outside)
    then have "addGenomeLoop genome k gid i trie = Some trie"
      by (simp add: addGenomeLoop.simps [of genome k gid i] extractOrError_def)
    with False show ?thesis by simp
  next
    case True
    let ?s = "substr (m_sequence genome) (nat i) (nat k)"
    let ?t = "insertT_inRange ?s (gid, i) trie"
    from True 1 have ex: "Genome_extract genome i k = Some ?s"
      by (simp add: Genome_extract_inside)
    have bases: "list_all isBase ?s"
      using "1.prems"(1) by (rule substr_bases)
    then have ne: "?s \<noteq> ''error''"
      by (rule error_not_bases)
    from ex have eo: "extractOrError genome i k = ?s"
      by (simp add: extractOrError_def)
    have ins: "insertT ?s (gid, i) trie = Some ?t"
      using bases by (simp add: insertT_eq bases_ascii)
    have step: "addGenomeLoop genome k gid i trie = addGenomeLoop genome k gid (i + 1) ?t"
      using ne by (simp add: addGenomeLoop.simps [of genome k gid i] eo ins)
    have "\<exists>t'. addGenomeLoop genome k gid (i + 1) ?t = Some t'
           \<and> (\<forall>key. valuesAt t' key
                 = valuesAt ?t key
                   @ map (\<lambda>j. (gid, j))
                       (filter (\<lambda>j. substr (m_sequence genome) (nat j) (nat k) = key)
                          [i + 1 .. Genome_length genome - k]))"
      using "1.prems" ne ins
      by (intro "1.IH" [of ?s ?t]) (simp_all add: eo)
    then obtain t' where t': "addGenomeLoop genome k gid (i + 1) ?t = Some t'"
      and vals: "\<And>key. valuesAt t' key
                 = valuesAt ?t key
                   @ map (\<lambda>j. (gid, j))
                       (filter (\<lambda>j. substr (m_sequence genome) (nat j) (nat k) = key)
                          [i + 1 .. Genome_length genome - k])"
      by blast
    have up: "[i .. Genome_length genome - k] = i # [i + 1 .. Genome_length genome - k]"
      using True by (simp add: upto_rec1)
    have "valuesAt t' key
            = valuesAt trie key
              @ map (\<lambda>j. (gid, j))
                  (filter (\<lambda>j. substr (m_sequence genome) (nat j) (nat k) = key)
                     [i .. Genome_length genome - k])" for key
      unfolding vals up by (simp add: valuesAt_insertT)
    with t' show ?thesis
      unfolding step by blast
  qed
qed

lemma addGenome_Some:
  assumes "addGenome gm g = Some gm'"
  shows "addGenomeLoop g (m_minSearchLength gm) (int (length (m_genomeLibrary gm)) + 1) 0
           (m_sequencedDNA gm) = Some (m_sequencedDNA gm')
         \<and> m_genomeLibrary gm' = m_genomeLibrary gm @ [g]
         \<and> m_minSearchLength gm' = m_minSearchLength gm"
  using assms
  by (auto simp: addGenome_def Let_def add.commute split: option.splits)

text \<open>
  Claim C5. The genome holds bases only and the minimum search length \<open>k\<close> is at
  least 1. Then \<open>addGenome\<close> stays inside the arrays of the trie, and afterwards, for
  every offset \<open>i\<close> in \<open>0 .. g.length - k\<close>, the extraction of \<open>k\<close> bases at \<open>i\<close>
  succeeds and the exact lookup of that substring has a result that contains the seed
  \<open>(n, i)\<close>, where \<open>n\<close> is the number the code files the genome under: the size of the
  library after the genome was appended. When the genome is shorter than \<open>k\<close> the trie
  is unchanged; the genome is appended in every case.
\<close>

theorem addGenome_seeds:
  assumes "list_all isBase (m_sequence g)" and "1 \<le> m_minSearchLength gm"
  shows "\<exists>gm'. addGenome gm g = Some gm'
         \<and> (\<forall>i. 0 \<le> i \<and> i \<le> Genome_length g - m_minSearchLength gm \<longrightarrow>
               (\<exists>s hits. Genome_extract g i (m_minSearchLength gm) = Some s
                  \<and> length s = nat (m_minSearchLength gm)
                  \<and> findT s True (m_sequencedDNA gm') = Some hits
                  \<and> (int (length (m_genomeLibrary gm)) + 1, i) \<in> set hits))
         \<and> (Genome_length g < m_minSearchLength gm \<longrightarrow>
               m_sequencedDNA gm' = m_sequencedDNA gm)
         \<and> m_genomeLibrary gm' = m_genomeLibrary gm @ [g]"
proof -
  let ?k = "m_minSearchLength gm"
  let ?gid = "int (length (m_genomeLibrary gm)) + 1"
  from addGenomeLoop_valuesAt [OF assms(1) assms(2), of 0 ?gid "m_sequencedDNA gm"]
  obtain t' where loop: "addGenomeLoop g ?k ?gid 0 (m_sequencedDNA gm) = Some t'"
    and vals: "\<And>key. valuesAt t' key
                 = valuesAt (m_sequencedDNA gm) key
                   @ map (\<lambda>j. (?gid, j))
                       (filter (\<lambda>j. substr (m_sequence g) (nat j) (nat ?k) = key)
                          [0 .. Genome_length g - ?k])"
    by auto
  let ?gm' = "gm\<lparr>m_genomeLibrary := m_genomeLibrary gm @ [g], m_sequencedDNA := t'\<rparr>"
  have added: "addGenome gm g = Some ?gm'"
    using loop by (simp add: addGenome_def Let_def add.commute)
  have seeds: "\<exists>s hits. Genome_extract g i ?k = Some s \<and> length s = nat ?k
                 \<and> findT s True (m_sequencedDNA ?gm') = Some hits \<and> (?gid, i) \<in> set hits"
    if "0 \<le> i" and "i \<le> Genome_length g - ?k" for i
  proof -
    let ?s = "substr (m_sequence g) (nat i) (nat ?k)"
    from that assms(2) have "Genome_extract g i ?k = Some ?s"
      by (simp add: Genome_extract_inside)
    moreover from that assms(2) have "length ?s = nat ?k"
      by (simp add: substr_def Genome_length_def)
    moreover have "list_all isAscii ?s"
      using assms(1) by (intro bases_ascii substr_bases)
    then have "findT ?s True (m_sequencedDNA ?gm') = Some (valuesAt t' ?s)"
      by (simp add: findT_ascii findT_exact)
    moreover from that have "(?gid, i) \<in> set (valuesAt t' ?s)"
      unfolding vals by simp
    ultimately show ?thesis by blast
  qed
  have short: "m_sequencedDNA ?gm' = m_sequencedDNA gm" if "Genome_length g < ?k"
  proof -
    from that assms(2) have "Genome_extract g 0 ?k = None"
      by (simp add: Genome_extract_outside)
    with loop show ?thesis
      by (simp add: addGenomeLoop.simps [of g ?k ?gid 0] extractOrError_def)
  qed
  have "m_genomeLibrary ?gm' = m_genomeLibrary gm @ [g]"
    by simp
  with added seeds short show ?thesis by blast
qed

theorem addGenome_seeds_witness:
  "list_all isBase (m_sequence (GenomeImpl ''A'' ''ACGTA''))
   \<and> 1 \<le> m_minSearchLength (GenomeMatcherImpl 3)
   \<and> (0::int) \<le> 2 \<and> 2 \<le> Genome_length (GenomeImpl ''A'' ''ACGTA'') - 3
   \<and> Genome_extract (GenomeImpl ''A'' ''ACGTA'') 2 3 = Some ''GTA''
   \<and> (\<exists>gm' hits. addGenome (GenomeMatcherImpl 3) (GenomeImpl ''A'' ''ACGTA'') = Some gm'
         \<and> findT ''GTA'' True (m_sequencedDNA gm') = Some hits \<and> (1, 2) \<in> set hits)
   \<and> Genome_length (GenomeImpl ''B'' ''AC'') < 3
   \<and> (\<exists>gm'. addGenome (GenomeMatcherImpl 3) (GenomeImpl ''B'' ''AC'') = Some gm'
         \<and> m_sequencedDNA gm' = newNode \<and> m_genomeLibrary gm' = [GenomeImpl ''B'' ''AC''])"
proof -
  have b: "list_all isBase (m_sequence (GenomeImpl ''A'' ''ACGTA''))"
          "list_all isBase (m_sequence (GenomeImpl ''B'' ''AC''))"
    by (simp_all add: GenomeImpl_def isBase_def)
  have k: "1 \<le> m_minSearchLength (GenomeMatcherImpl 3)"
    by (simp add: GenomeMatcherImpl_def)
  have l: "Genome_length (GenomeImpl ''A'' ''ACGTA'') = 5" "Genome_length (GenomeImpl ''B'' ''AC'') = 2"
    by (simp_all add: Genome_length_def GenomeImpl_def)
  have e: "Genome_extract (GenomeImpl ''A'' ''ACGTA'') 2 3 = Some ''GTA''"
    by (simp add: Genome_extract_def GenomeImpl_def size_t_of_int_def substr_def)
  have m: "m_minSearchLength (GenomeMatcherImpl 3) = 3" "m_genomeLibrary (GenomeMatcherImpl 3) = []"
          "m_sequencedDNA (GenomeMatcherImpl 3) = newNode"
    by (simp_all add: GenomeMatcherImpl_def)
  from addGenome_seeds [OF b(1) k]
  obtain gm1 where a1: "addGenome (GenomeMatcherImpl 3) (GenomeImpl ''A'' ''ACGTA'') = Some gm1"
    and s1: "\<forall>i. 0 \<le> i \<and> i \<le> 2 \<longrightarrow>
          (\<exists>s hits. Genome_extract (GenomeImpl ''A'' ''ACGTA'') i 3 = Some s \<and> length s = 3
             \<and> findT s True (m_sequencedDNA gm1) = Some hits \<and> (1, i) \<in> set hits)"
    by (auto simp: l m)
  from s1 have "\<exists>s hits. Genome_extract (GenomeImpl ''A'' ''ACGTA'') 2 3 = Some s \<and> length s = 3
           \<and> findT s True (m_sequencedDNA gm1) = Some hits \<and> (1, 2) \<in> set hits"
    by (rule allE [of _ 2]) simp
  with e a1 have one: "\<exists>gm' hits. addGenome (GenomeMatcherImpl 3) (GenomeImpl ''A'' ''ACGTA'')
                                     = Some gm'
         \<and> findT ''GTA'' True (m_sequencedDNA gm') = Some hits \<and> (1, 2) \<in> set hits"
    by auto
  from addGenome_seeds [OF b(2) k]
  have two: "\<exists>gm'. addGenome (GenomeMatcherImpl 3) (GenomeImpl ''B'' ''AC'') = Some gm'
         \<and> m_sequencedDNA gm' = newNode \<and> m_genomeLibrary gm' = [GenomeImpl ''B'' ''AC'']"
    by (auto simp: l m)
  from one two b k e show ?thesis
    by (simp add: l)
qed

section \<open>The best match of each genome\<close>

text \<open>The index given to \<open>fragment.at\<close> is in range wherever the loop reaches that call.\<close>

lemma at_in_range:
  assumes "0 \<le> actualLength"
    and "size_t_of_int actualLength \<le> length fragment"
    and "Genome_extract g currentPosition actualLength = Some substring"
    and "substring \<noteq> substr fragment 0 (size_t_of_int actualLength)"
  shows "nat (actualLength - 1) < length fragment \<and> nat (actualLength - 1) < length substring"
proof -
  have "actualLength \<noteq> 0"
  proof
    assume "actualLength = 0"
    with assms(3,4) show False
      by (simp add: Genome_extract_def substr_def size_t_of_int_def split: if_splits)
  qed
  with assms(1) have pos: "1 \<le> actualLength" by simp
  from assms(1,3) have "length substring = nat actualLength"
    by (auto simp: Genome_extract_def substr_def size_t_of_int_def split: if_splits)
  with pos assms(1,2) show ?thesis
    by (simp add: size_t_of_int_def)
qed

lemma map_of_updateMatch: "map_of (updateMatch k d m) = (map_of m)(k \<mapsto> d)"
  by (induction m) (auto simp: fun_eq_iff)

lemma keys_updateMatch:
  "k \<in> fst ` set m \<Longrightarrow> map fst (updateMatch k d m) = map fst m"
proof (induction m)
  case Nil
  then show ?case by simp
next
  case (Cons a m)
  show ?case
  proof (cases "fst a = k")
    case True
    then show ?thesis by (cases a) simp
  next
    case False
    with Cons.prems have "k \<in> fst ` set m" by auto
    with False Cons.IH show ?thesis by (cases a) simp
  qed
qed

lemma map_of_snoc_new:
  "map_of m k = None \<Longrightarrow> map_of (m @ [(k, d)]) = (map_of m)(k \<mapsto> d)"
  by (auto simp: fun_eq_iff map_add_def split: option.splits)

lemma processLocation_keeps:
  assumes "distinct (map fst m)"
    and "\<And>gid. bestOf gm fragment L e xs gid (map_of m gid)"
  shows "distinct (map fst (processLocation gm fragment L e x m))
         \<and> (\<forall>gid. bestOf gm fragment L e (xs @ [x]) gid
                     (map_of (processLocation gm fragment L e x m) gid))"
proof -
  obtain g p where x: "x = (g, p)" by (cases x)
  let ?len = "seedLength gm fragment e (g, p)"
  let ?d = "\<lparr>DNAMatch.genomeName = Genome_name (m_genomeLibrary gm ! nat (g - 1)),
              length' = ?len, position = p\<rparr>"
  have old: "bestOf gm fragment L e xs gid (map_of m gid)" for gid
    by (rule assms(2))
  have other: "bestOf gm fragment L e (xs @ [x]) gid (map_of m gid)" if "gid \<noteq> g" for gid
    using old [of gid] that by (auto simp: bestOf_def x split: option.splits)
  show ?thesis
  proof (cases "?len < L")
    case True
    then have same: "processLocation gm fragment L e x m = m"
      by (simp add: processLocation_def x seedLength_def Let_def)
    have "bestOf gm fragment L e (xs @ [x]) g (map_of m g)"
      using old [of g] True by (auto simp: bestOf_def x split: option.splits)
    with other have "bestOf gm fragment L e (xs @ [x]) gid (map_of m gid)" for gid
      by (cases "gid = g") auto
    with assms(1) show ?thesis by (simp add: same)
  next
    case long: False
    show ?thesis
    proof (cases "map_of m g")
      case None
      then have new: "processLocation gm fragment L e x m = m @ [(g, ?d)]"
        using long by (simp add: processLocation_def x seedLength_def Let_def)
      from None have "g \<notin> fst ` set m"
        by (simp add: map_of_eq_None_iff)
      with assms(1) have d: "distinct (map fst (m @ [(g, ?d)]))"
        by simp
      have mo: "map_of (m @ [(g, ?d)]) = (map_of m)(g \<mapsto> ?d)"
        using None by (rule map_of_snoc_new)
      have "bestOf gm fragment L e (xs @ [x]) g (Some ?d)"
        using old [of g] None long by (auto simp: bestOf_def x)
      with other have "bestOf gm fragment L e (xs @ [x]) gid (((map_of m)(g \<mapsto> ?d)) gid)" for gid
        by (cases "gid = g") auto
      with d show ?thesis by (simp add: new mo del: map_of_append)
    next
      case (Some od)
      then have ing: "g \<in> fst ` set m"
        by (metis map_of_eq_None_iff option.distinct(1))
      show ?thesis
      proof (cases "length' od < ?len")
        case True
        with Some long have upd: "processLocation gm fragment L e x m = updateMatch g ?d m"
          by (simp add: processLocation_def x seedLength_def Let_def)
        have "bestOf gm fragment L e (xs @ [x]) g (Some ?d)"
          using old [of g] Some long True by (auto simp: bestOf_def x)
        with other have "bestOf gm fragment L e (xs @ [x]) gid (((map_of m)(g \<mapsto> ?d)) gid)" for gid
          by (cases "gid = g") auto
        with assms(1) show ?thesis
          by (simp add: upd map_of_updateMatch keys_updateMatch [OF ing])
      next
        case False
        with Some long have same: "processLocation gm fragment L e x m = m"
          by (simp add: processLocation_def x seedLength_def Let_def)
        have "bestOf gm fragment L e (xs @ [x]) g (map_of m g)"
          using old [of g] Some False by (auto simp: bestOf_def x)
        with other have "bestOf gm fragment L e (xs @ [x]) gid (map_of m gid)" for gid
          by (cases "gid = g") auto
        with assms(1) show ?thesis by (simp add: same)
      qed
    qed
  qed
qed

lemma bestMatches_best:
  "distinct (map fst (bestMatches gm fragment L e xs))
   \<and> (\<forall>gid. bestOf gm fragment L e xs gid (map_of (bestMatches gm fragment L e xs) gid))"
proof (induction xs rule: rev_induct)
  case Nil
  show ?case by (simp add: bestMatches_def bestOf_def)
next
  case (snoc x xs)
  have "bestMatches gm fragment L e (xs @ [x])
          = processLocation gm fragment L e x (bestMatches gm fragment L e xs)"
    by (simp add: bestMatches_def)
  with snoc processLocation_keeps [of "bestMatches gm fragment L e xs" gm fragment L e xs x]
  show ?case by simp
qed

lemma findGenomesWithThisDNA_True:
  assumes "findGenomesWithThisDNA gm fragment L e old = Some (True, matches)"
  shows "matches = map snd (bestMatches gm fragment L e (seedHits gm fragment e))"
proof -
  let ?key = "substr fragment 0 (size_t_of_int (m_minSearchLength gm))"
  from assms obtain locs where locs: "findT ?key e (m_sequencedDNA gm) = Some locs"
    and out: "matches = map snd (bestMatches gm fragment L e locs)"
    by (auto simp: findGenomesWithThisDNA_def Let_def split: if_splits option.splits)
  from locs have "locs = seedHits gm fragment e"
    unfolding seedHits_def by (rule findT_Some)
  with out show ?thesis by simp
qed

lemma findGenomesWithThisDNA_True_pre:
  assumes "findGenomesWithThisDNA gm fragment L e old = Some (True, matches)"
  shows "size_t_of_int L \<le> length fragment \<and> m_minSearchLength gm \<le> L"
  using assms
  by (auto simp: findGenomesWithThisDNA_def Let_def split: if_splits option.splits)

text \<open>
  Claim C10. The best match is kept per genome number, so two library genomes added
  under one name both appear in the result of one call, with equal names.
\<close>

theorem same_name_two_matches:
  "(addGenome (GenomeMatcherImpl 3) (GenomeImpl ''X'' ''AAAC'')
      \<bind> (\<lambda>gm. addGenome gm (GenomeImpl ''X'' ''GAAA''))
      \<bind> (\<lambda>gm. findGenomesWithThisDNA gm ''AAA'' 3 True []))
   = Some (True, [\<lparr>DNAMatch.genomeName = ''X'', length' = 3, position = 0\<rparr>,
                  \<lparr>DNAMatch.genomeName = ''X'', length' = 3, position = 1\<rparr>])"
  by code_simp

section \<open>Calls that fail\<close>

text \<open>
  Claim C7. Both operations test their preconditions before they clear the caller's
  vector: a call that fails a precondition returns false and leaves the vector as it
  was, here with the one element it held. The failure on zero whole windows comes after
  the clearing and leaves the vector empty (last conjunct).
\<close>

theorem failed_precondition_keeps_output:
  "findGenomesWithThisDNA (GenomeMatcherImpl 4) ''ACG'' 4 True
      [\<lparr>DNAMatch.genomeName = ''old'', length' = 7, position = 2\<rparr>]
     = Some (False, [\<lparr>DNAMatch.genomeName = ''old'', length' = 7, position = 2\<rparr>])
   \<and> findGenomesWithThisDNA (GenomeMatcherImpl 4) ''ACGT'' 3 True
      [\<lparr>DNAMatch.genomeName = ''old'', length' = 7, position = 2\<rparr>]
     = Some (False, [\<lparr>DNAMatch.genomeName = ''old'', length' = 7, position = 2\<rparr>])
   \<and> findRelatedGenomes (GenomeMatcherImpl 4) (GenomeImpl ''q'' ''ACGTACGT'') 3 True 0
      [\<lparr>GenomeMatch.genomeName = ''old'', percentMatch = 50\<rparr>]
     = Some (False, [\<lparr>GenomeMatch.genomeName = ''old'', percentMatch = 50\<rparr>])
   \<and> findRelatedGenomes (GenomeMatcherImpl 4) (GenomeImpl ''q'' ''ACG'') 4 True 0
      [\<lparr>GenomeMatch.genomeName = ''old'', percentMatch = 50\<rparr>]
     = Some (False, [])"
  by (simp add: findGenomesWithThisDNA_def findRelatedGenomes_def GenomeMatcherImpl_def
        size_t_of_int_def Genome_length_def GenomeImpl_def)

section \<open>Related genomes\<close>

lemma addGenomeLoop_values_extracted:
  assumes "addGenomeLoop g k gid i t = Some t'" and "loc \<in> set (valuesAt t' key)"
  shows "loc \<in> set (valuesAt t key) \<or> (fst loc = gid \<and> Genome_extract g (snd loc) k = Some key)"
  using assms
proof (induction g k gid i t rule: addGenomeLoop.induct)
  case (1 genome k gid i trie)
  show ?case
  proof (cases "extractOrError genome i k = ''error''")
    case True
    with "1.prems" show ?thesis
      by (simp add: addGenomeLoop.simps [of genome k gid i])
  next
    case False
    let ?s = "extractOrError genome i k"
    from False have ex: "Genome_extract genome i k = Some ?s"
      by (auto simp: extractOrError_def split: option.splits)
    from False "1.prems"(1) obtain x where ins: "insertT ?s (gid, i) trie = Some x"
      and rest: "addGenomeLoop genome k gid (i + 1) x = Some t'"
      by (auto simp: addGenomeLoop.simps [of genome k gid i] split: option.splits)
    from ins have x: "x = insertT_inRange ?s (gid, i) trie"
      by (simp add: insertT_eq split: if_splits)
    from "1.IH" [OF refl False ins rest "1.prems"(2)]
    have "loc \<in> set (valuesAt x key)
          \<or> (fst loc = gid \<and> Genome_extract genome (snd loc) k = Some key)" .
    then show ?thesis
      using ex unfolding x by (auto simp: valuesAt_insertT split: if_splits)
  qed
qed

lemma reachable_seedsInLibrary: "reachable gm \<Longrightarrow> seedsInLibrary gm"
proof (induction rule: reachable.induct)
  case (initial k)
  show ?case
    by (simp add: seedsInLibrary_def GenomeMatcherImpl_def valuesAt_newNode)
next
  case (added gm genome gm')
  note new = addGenome_Some [OF added.hyps(2)]
  show ?case
    unfolding seedsInLibrary_def
  proof (intro allI impI)
    fix key loc
    assume "loc \<in> set (valuesAt (m_sequencedDNA gm') key)"
    with new have "loc \<in> set (valuesAt (m_sequencedDNA gm) key)
               \<or> fst loc = int (length (m_genomeLibrary gm)) + 1"
      by (blast dest: addGenomeLoop_values_extracted)
    then show "1 \<le> fst loc \<and> fst loc \<le> int (length (m_genomeLibrary gm'))"
    proof
      assume "loc \<in> set (valuesAt (m_sequencedDNA gm) key)"
      with added.IH have "1 \<le> fst loc \<and> fst loc \<le> int (length (m_genomeLibrary gm))"
        unfolding seedsInLibrary_def by blast
      with new show ?thesis by simp
    next
      assume "fst loc = int (length (m_genomeLibrary gm)) + 1"
      with new show ?thesis by simp
    qed
  qed
qed

lemma seedHits_in_library:
  assumes "seedsInLibrary gm" and "loc \<in> set (seedHits gm fragment e)"
  shows "1 \<le> fst loc \<and> fst loc \<le> int (length (m_genomeLibrary gm))"
proof -
  from assms(2) obtain p where "loc \<in> set (valuesAt (m_sequencedDNA gm) p)"
    unfolding seedHits_def by (blast dest: findT_values)
  with assms(1) show ?thesis
    unfolding seedsInLibrary_def by blast
qed

text \<open>So the library is indexed in range for every seed hit of a reachable matcher.\<close>

lemma library_index_in_range:
  assumes "reachable gm" and "loc \<in> set (seedHits gm fragment e)"
  shows "nat (fst loc - 1) < length (m_genomeLibrary gm)"
  using seedHits_in_library [OF reachable_seedsInLibrary [OF assms(1)] assms(2)]
  by linarith

lemma findGenomesWithThisDNA_fresh:
  assumes "findGenomesWithThisDNA gm fragment L e [] = Some (found, matches)"
  shows "matches = []
         \<or> matches = map snd (bestMatches gm fragment L e (seedHits gm fragment e))"
proof (cases found)
  case True
  with assms show ?thesis
    by (simp add: findGenomesWithThisDNA_True)
next
  case False
  with assms have "matches = []"
    by (auto simp: findGenomesWithThisDNA_def Let_def split: if_splits option.splits)
  then show ?thesis ..
qed

lemma match_names_distinct:
  assumes "seedsInLibrary gm" and "distinct (map m_name (m_genomeLibrary gm))"
  shows "distinct (map DNAMatch.genomeName
                     (map snd (bestMatches gm fragment L e (seedHits gm fragment e))))"
proof -
  let ?seeds = "seedHits gm fragment e"
  let ?match = "bestMatches gm fragment L e ?seeds"
  let ?nm = "\<lambda>gid. m_name (m_genomeLibrary gm ! nat (gid - 1))"
  have dist: "distinct (map fst ?match)"
    using bestMatches_best [of gm fragment L e ?seeds] by simp
  have best: "bestOf gm fragment L e ?seeds gid (map_of ?match gid)" for gid
    using bestMatches_best [of gm fragment L e ?seeds] by simp
  have entry: "DNAMatch.genomeName d = ?nm gid
               \<and> 1 \<le> gid \<and> gid \<le> int (length (m_genomeLibrary gm))"
    if "(gid, d) \<in> set ?match" for gid d
  proof -
    from that dist have "map_of ?match gid = Some d" by simp
    with best [of gid] have "DNAMatch.genomeName d = ?nm gid" "(gid, position d) \<in> set ?seeds"
      by (simp_all add: bestOf_def Genome_name_def)
    with seedHits_in_library [OF assms(1), of "(gid, position d)" fragment e]
    show ?thesis by simp
  qed
  have names: "map DNAMatch.genomeName (map snd ?match) = map ?nm (map fst ?match)"
    using entry by (auto simp: comp_def)
  have "inj_on ?nm (set (map fst ?match))"
  proof (rule inj_onI)
    fix a b
    assume a: "a \<in> set (map fst ?match)" and b: "b \<in> set (map fst ?match)" and eq: "?nm a = ?nm b"
    from a entry have ra: "1 \<le> a \<and> a \<le> int (length (m_genomeLibrary gm))" by auto
    from b entry have rb: "1 \<le> b \<and> b \<le> int (length (m_genomeLibrary gm))" by auto
    from ra rb have lt: "nat (a - 1) < length (map m_name (m_genomeLibrary gm))"
                        "nat (b - 1) < length (map m_name (m_genomeLibrary gm))"
      by auto
    from eq lt have "map m_name (m_genomeLibrary gm) ! nat (a - 1)
                     = map m_name (m_genomeLibrary gm) ! nat (b - 1)"
      by simp
    with nth_eq_iff_index_eq [OF assms(2) lt] have "nat (a - 1) = nat (b - 1)"
      by blast
    with ra rb show "a = b" by auto
  qed
  moreover have "distinct (map ?nm (map fst ?match))
                   \<longleftrightarrow> distinct (map fst ?match) \<and> inj_on ?nm (set (map fst ?match))"
    by (rule distinct_map)
  ultimately have "distinct (map ?nm (map fst ?match))"
    using dist by blast
  then show ?thesis
    unfolding names .
qed

lemma count_fold:
  "fold (\<lambda>d c. c(DNAMatch.genomeName d := c (DNAMatch.genomeName d) + 1)) ms c n
     = c n + int (length (filter (\<lambda>d. DNAMatch.genomeName d = n) ms))"
  by (induction ms arbitrary: c) auto

lemma distinct_filter_le_1:
  "distinct (map f xs) \<Longrightarrow> length (filter (\<lambda>x. f x = n) xs) \<le> 1"
proof (induction xs)
  case Nil
  show ?case by simp
next
  case (Cons x xs)
  show ?case
  proof (cases "f x = n")
    case True
    from Cons.prems have "f x \<notin> f ` set xs"
      by simp
    with True have "\<forall>y\<in>set xs. f y \<noteq> n"
      by (metis imageI)
    then have "filter (\<lambda>x. f x = n) xs = []"
      by (simp add: filter_empty_conv)
    with True show ?thesis by simp
  next
    case False
    with Cons show ?thesis by simp
  qed
qed

lemma count_fold_bounds:
  assumes "seedsInLibrary gm" and "distinct (map m_name (m_genomeLibrary gm))"
    and "findGenomesWithThisDNA gm fragment L e [] = Some (found, matches)"
  shows "(c :: string \<Rightarrow> int) n
           \<le> fold (\<lambda>d c. c(DNAMatch.genomeName d := c (DNAMatch.genomeName d) + 1)) matches c n
       \<and> fold (\<lambda>d c. c(DNAMatch.genomeName d := c (DNAMatch.genomeName d) + 1)) matches c n
           \<le> c n + 1"
proof -
  have "distinct (map DNAMatch.genomeName matches)"
    using findGenomesWithThisDNA_fresh [OF assms(3)] match_names_distinct [OF assms(1,2)]
    by auto
  then have "length (filter (\<lambda>d. DNAMatch.genomeName d = n) matches) \<le> 1"
    by (rule distinct_filter_le_1)
  with count_fold [of matches c n]
  show ?thesis
    by simp
qed

lemma countWindows_bounds:
  assumes "seedsInLibrary gm" and "distinct (map m_name (m_genomeLibrary gm))"
    and "countWindows gm query m e ws c = Some c'"
  shows "c n \<le> c' n \<and> c' n \<le> c n + int (length ws)"
  using assms(3)
proof (induction ws arbitrary: c)
  case Nil
  then show ?case by simp
next
  case (Cons i ws)
  show ?case
  proof (cases "extractOrError query (i * m) m = ''error''")
    case True
    with Cons.prems show ?thesis by simp
  next
    case False
    with Cons.prems obtain found matches
      where call: "findGenomesWithThisDNA gm (extractOrError query (i * m) m) m e []
                     = Some (found, matches)"
        and rest: "countWindows gm query m e ws
                     (fold (\<lambda>d c. c(DNAMatch.genomeName d := c (DNAMatch.genomeName d) + 1))
                        matches c) = Some c'"
      by (auto simp: Let_def split: option.splits)
    let ?c = "fold (\<lambda>d c. c(DNAMatch.genomeName d := c (DNAMatch.genomeName d) + 1)) matches c"
    have "c n \<le> ?c n \<and> ?c n \<le> c n + 1"
      by (rule count_fold_bounds [OF assms(1,2) call])
    moreover have "?c n \<le> c' n \<and> c' n \<le> ?c n + int (length ws)"
      using rest by (rule Cons.IH)
    ultimately show ?thesis by simp
  qed
qed

lemma set_insertMatch: "set (insertMatch x xs) = insert x (set xs)"
  by (induction xs) auto

lemma set_sortMatches: "set (sortMatches xs) = set xs"
  by (induction xs) (simp_all add: sortMatches_def set_insertMatch)

lemma relatedResults_member:
  assumes "r \<in> set (relatedResults library counts S threshold)"
  shows "threshold < percentMatch r
         \<and> percentMatch r = real_of_int (counts (GenomeMatch.genomeName r)) / real_of_int S * 100"
  using assms by (auto simp: relatedResults_def)

lemma percent_le_100:
  assumes "0 \<le> c" and "c \<le> int n" and "n = length [0 .. S - 1]"
  shows "real_of_int c / real_of_int S * 100 \<le> 100"
proof (cases "0 < S")
  case True
  with assms have "c \<le> S" by simp
  with True have "real_of_int c / real_of_int S \<le> 1"
    by simp
  then have "real_of_int c / real_of_int S * 100 \<le> 1 * 100"
    by (intro mult_right_mono) simp_all
  then show ?thesis by simp
next
  case False
  with assms have "c = 0" by simp
  then show ?thesis by simp
qed

text \<open>
  Claim C6, as the code has it. The matcher was built by the constructor and calls of
  \<open>addGenome\<close>, and the genomes of its library have pairwise different names. Then
  every \<open>GenomeMatch\<close> of a successful call has a \<open>percentMatch\<close> above the
  threshold and at most 100, and it is 100 times the number of windows counted for the
  genome's name, divided by \<open>S\<close>, the quotient of the query's length by the window
  length.
\<close>

theorem related_percent_bounds:
  assumes "reachable gm"
    and "distinct (map m_name (m_genomeLibrary gm))"
    and "findRelatedGenomes gm query m exactOnly threshold old = Some (True, results)"
    and "r \<in> set results"
  shows "threshold < percentMatch r \<and> percentMatch r \<le> 100
         \<and> (\<exists>counts. countWindows gm query m exactOnly
                         [0 .. Genome_length query sdiv m - 1] (\<lambda>n. 0) = Some counts
              \<and> percentMatch r
                  = real_of_int (counts (GenomeMatch.genomeName r))
                    / real_of_int (Genome_length query sdiv m) * 100)"
proof -
  let ?S = "Genome_length query sdiv m"
  from assms(3) obtain counts
    where counts: "countWindows gm query m exactOnly [0 .. ?S - 1] (\<lambda>n. 0) = Some counts"
      and res: "results = sortMatches (relatedResults (m_genomeLibrary gm) counts ?S threshold)"
    by (auto simp: findRelatedGenomes_def Let_def split: if_splits option.splits)
  from res assms(4) have "r \<in> set (relatedResults (m_genomeLibrary gm) counts ?S threshold)"
    by (simp add: set_sortMatches)
  from relatedResults_member [OF this]
  have p: "threshold < percentMatch r"
    "percentMatch r = real_of_int (counts (GenomeMatch.genomeName r)) / real_of_int ?S * 100"
    by blast+
  have inv: "seedsInLibrary gm"
    using assms(1) by (rule reachable_seedsInLibrary)
  have "0 \<le> counts (GenomeMatch.genomeName r)
        \<and> counts (GenomeMatch.genomeName r) \<le> 0 + int (length [0 .. ?S - 1])"
    using countWindows_bounds [OF inv assms(2) counts, of "GenomeMatch.genomeName r"]
    by simp
  then have "real_of_int (counts (GenomeMatch.genomeName r)) / real_of_int ?S * 100 \<le> 100"
    by (intro percent_le_100 [where n = "length [0 .. ?S - 1]"]) simp_all
  with p counts show ?thesis by (simp only:) blast
qed

theorem related_percent_bounds_witness:
  "\<exists>gm. (addGenome (GenomeMatcherImpl 3) (GenomeImpl ''P'' ''AAACCCGGG'')
            \<bind> (\<lambda>gm. addGenome gm (GenomeImpl ''Q'' ''AAATTTGGG''))) = Some gm
       \<and> reachable gm
       \<and> distinct (map m_name (m_genomeLibrary gm))
       \<and> findRelatedGenomes gm (GenomeImpl ''q'' ''AAACCCGGG'') 3 True 50 []
           = Some (True, [\<lparr>GenomeMatch.genomeName = ''P'', percentMatch = 100\<rparr>,
                          \<lparr>GenomeMatch.genomeName = ''Q'', percentMatch = 200 / 3\<rparr>])
       \<and> (50 :: real) < 200 / 3 \<and> (200 / 3 :: real) \<le> 100"
proof -
  let ?P = "GenomeImpl ''P'' ''AAACCCGGG''" and ?Q = "GenomeImpl ''Q'' ''AAATTTGGG''"
  have bases: "list_all isBase (m_sequence ?P)" "list_all isBase (m_sequence ?Q)"
    by (simp_all add: GenomeImpl_def isBase_def)
  from addGenomeLoop_valuesAt [OF bases(1), of 3 0 1 newNode]
  obtain gm1 where a1: "addGenome (GenomeMatcherImpl 3) ?P = Some gm1"
    by (auto simp: addGenome_def GenomeMatcherImpl_def Let_def)
  then have k1: "m_minSearchLength gm1 = 3" and l1: "m_genomeLibrary gm1 = [?P]"
    by (auto simp: addGenome_def GenomeMatcherImpl_def Let_def split: option.splits)
  from addGenomeLoop_valuesAt [OF bases(2), of 3 0 2 "m_sequencedDNA gm1"]
  obtain gm2 where a2: "addGenome gm1 ?Q = Some gm2"
    by (auto simp: addGenome_def k1 l1 Let_def)
  then have l2: "m_genomeLibrary gm2 = [?P, ?Q]"
    by (auto simp: addGenome_def l1 Let_def split: option.splits)
  have both: "(addGenome (GenomeMatcherImpl 3) ?P \<bind> (\<lambda>gm. addGenome gm ?Q)) = Some gm2"
    by (simp add: a1 a2)
  have r: "reachable gm2"
    using reachable.initial a1 a2 by (blast intro: reachable.added)
  have d: "distinct (map m_name (m_genomeLibrary gm2))"
    by (simp add: l2 GenomeImpl_def)
  have "(addGenome (GenomeMatcherImpl 3) ?P \<bind> (\<lambda>gm. addGenome gm ?Q)
           \<bind> (\<lambda>gm. findRelatedGenomes gm (GenomeImpl ''q'' ''AAACCCGGG'') 3 True 50 []))
      = Some (True, [\<lparr>GenomeMatch.genomeName = ''P'', percentMatch = 100\<rparr>,
                     \<lparr>GenomeMatch.genomeName = ''Q'', percentMatch = 200 / 3\<rparr>])"
    by code_simp
  then have call: "findRelatedGenomes gm2 (GenomeImpl ''q'' ''AAACCCGGG'') 3 True 50 []
      = Some (True, [\<lparr>GenomeMatch.genomeName = ''P'', percentMatch = 100\<rparr>,
                     \<lparr>GenomeMatch.genomeName = ''Q'', percentMatch = 200 / 3\<rparr>])"
    by (simp add: a1 a2)
  have "\<lparr>GenomeMatch.genomeName = ''Q'', percentMatch = 200 / 3\<rparr>
          \<in> set [\<lparr>GenomeMatch.genomeName = ''P'', percentMatch = 100\<rparr>,
                  \<lparr>GenomeMatch.genomeName = ''Q'', percentMatch = 200 / 3\<rparr>]"
    by simp
  from related_percent_bounds [OF r d call this]
  have "(50 :: real) < 200 / 3 \<and> (200 / 3 :: real) \<le> 100"
    by simp
  with both r d call show ?thesis by blast
qed

text \<open>
  The claim as it was stated fails when two genomes of the library have one name: the
  windows are counted per name, one window counts twice for the name \<open>X\<close>, and both
  results carry 200 percent.
\<close>

theorem related_percent_counterexample:
  "(addGenome (GenomeMatcherImpl 3) (GenomeImpl ''X'' ''AAAC'')
      \<bind> (\<lambda>gm. addGenome gm (GenomeImpl ''X'' ''GAAA''))
      \<bind> (\<lambda>gm. findRelatedGenomes gm (GenomeImpl ''q'' ''AAA'') 3 True 0 []))
   = Some (True, [\<lparr>GenomeMatch.genomeName = ''X'', percentMatch = 200\<rparr>,
                  \<lparr>GenomeMatch.genomeName = ''X'', percentMatch = 200\<rparr>])
   \<and> \<not> (200 :: real) \<le> 100"
  by code_simp

section \<open>Exact matches\<close>

lemma reachable_seedsExtracted: "reachable gm \<Longrightarrow> seedsExtracted gm"
proof (induction rule: reachable.induct)
  case (initial k)
  show ?case
    by (simp add: seedsExtracted_def GenomeMatcherImpl_def valuesAt_newNode)
next
  case (added gm genome gm')
  let ?n = "int (length (m_genomeLibrary gm)) + 1"
  from addGenome_Some [OF added.hyps(2)]
  have trie: "addGenomeLoop genome (m_minSearchLength gm) ?n 0 (m_sequencedDNA gm)
                = Some (m_sequencedDNA gm')"
    and lib: "m_genomeLibrary gm' = m_genomeLibrary gm @ [genome]"
    and k: "m_minSearchLength gm' = m_minSearchLength gm"
    by simp_all
  have range: "seedsInLibrary gm"
    using added.hyps(1) by (rule reachable_seedsInLibrary)
  show ?case
    unfolding seedsExtracted_def
  proof (intro allI impI)
    fix key loc
    assume "loc \<in> set (valuesAt (m_sequencedDNA gm') key)"
    with trie have "loc \<in> set (valuesAt (m_sequencedDNA gm) key)
               \<or> (fst loc = ?n \<and> Genome_extract genome (snd loc) (m_minSearchLength gm) = Some key)"
      by (rule addGenomeLoop_values_extracted)
    then show "Genome_extract (m_genomeLibrary gm' ! nat (fst loc - 1)) (snd loc)
                 (m_minSearchLength gm') = Some key"
    proof
      assume old: "loc \<in> set (valuesAt (m_sequencedDNA gm) key)"
      with range have "1 \<le> fst loc \<and> fst loc \<le> int (length (m_genomeLibrary gm))"
        unfolding seedsInLibrary_def by blast
      then have "nat (fst loc - 1) < length (m_genomeLibrary gm)"
        by linarith
      then have "(m_genomeLibrary gm @ [genome]) ! nat (fst loc - 1)
                   = m_genomeLibrary gm ! nat (fst loc - 1)"
        by (simp add: nth_append)
      with old added.IH show ?thesis
        unfolding lib k seedsExtracted_def by simp
    next
      assume new: "fst loc = ?n \<and> Genome_extract genome (snd loc) (m_minSearchLength gm) = Some key"
      then have "(m_genomeLibrary gm @ [genome]) ! nat (fst loc - 1) = genome"
        by (simp add: nth_append)
      with new show ?thesis
        unfolding lib k by simp
    qed
  qed
qed

lemma Genome_extract_shorter:
  assumes "Genome_extract g pos n = Some s" and "0 \<le> m" and "m \<le> n"
  shows "Genome_extract g pos m = Some (take (nat m) s)"
proof -
  from assms(2,3) have n: "0 \<le> n" by simp
  from assms(1) n have *: "0 \<le> pos" "pos < Genome_length g" "pos + n \<le> Genome_length g"
    "s = take (nat n) (drop (nat pos) (m_sequence g))"
    by (auto simp: Genome_extract_nonneg split: if_splits)
  with assms(2,3) have "Genome_extract g pos m = Some (take (nat m) (drop (nat pos) (m_sequence g)))"
    by (simp add: Genome_extract_nonneg)
  moreover from assms(2,3) have "take (nat m) s = take (nat m) (drop (nat pos) (m_sequence g))"
    unfolding *(4) by (simp add: min_def)
  ultimately show ?thesis by simp
qed

lemma Genome_extract_length:
  "Genome_extract g pos n = Some s \<Longrightarrow> 0 \<le> n \<Longrightarrow> length s = nat n"
  by (auto simp: Genome_extract_nonneg Genome_length_def split: if_splits)

lemma take_last_eq:
  assumes "length s = Suc n" and "Suc n \<le> length f"
    and "take n s = take n f" and "s ! n = f ! n"
  shows "s = take (Suc n) f"
proof -
  have "take (Suc n) s = take n s @ [s ! n]"
    using assms(1) by (intro take_Suc_conv_app_nth) simp
  moreover have "take (Suc n) f = take n f @ [f ! n]"
    using assms(2) by (intro take_Suc_conv_app_nth) simp
  moreover have "take (Suc n) s = s"
    using assms(1) by simp
  ultimately show ?thesis
    using assms(3,4) by simp
qed

lemma extendMatch_exact:
  assumes "0 \<le> al" and "al \<le> int (length frag)"
    and "1 \<le> al \<longrightarrow> Genome_extract g pos (al - 1) = Some (take (nat (al - 1)) frag)"
  shows "Genome_extract g pos (extendMatch g frag pos al True)
           = Some (take (nat (extendMatch g frag pos al True)) frag)
         \<or> extractOrError g pos (extendMatch g frag pos al True) = ''error''"
  using assms
proof (induction g frag pos al "True" rule: extendMatch.induct)
  case (1 g frag pos al)
  let ?sub = "extractOrError g pos al"
  from "1.prems" have guard: "size_t_of_int al \<le> length frag" and sz: "size_t_of_int al = nat al"
    by (simp_all add: size_t_of_int_def)
  show ?case
  proof (cases "?sub = ''error''")
    case True
    with guard have "extendMatch g frag pos al True = al"
      by (simp add: extendMatch.simps [of g frag pos al])
    with True show ?thesis by simp
  next
    case ne: False
    then have ex: "Genome_extract g pos al = Some ?sub"
      by (auto simp: extractOrError_def split: option.splits)
    show ?thesis
    proof (cases "?sub = substr frag 0 (size_t_of_int al)")
      case same: True
      then have pre: "Genome_extract g pos al = Some (take (nat al) frag)"
        using ex by (simp add: substr_def sz)
      show ?thesis
      proof (cases "size_t_of_int al = length frag")
        case True
        with guard ne same have "extendMatch g frag pos al True = al"
          by (simp add: extendMatch.simps [of g frag pos al])
        with pre show ?thesis by simp
      next
        case False
        with guard ne same have step: "extendMatch g frag pos al True
                                         = extendMatch g frag pos (al + 1) True"
          by (simp add: extendMatch.simps [of g frag pos al])
        from False guard sz "1.prems" have "al + 1 \<le> int (length frag)"
          by linarith
        with "1.prems" pre show ?thesis
          unfolding step
          by (intro "1.hyps"(1) [OF _ refl ne same False]) (simp_all add: guard)
      qed
    next
      case diff: False
      have al1: "1 \<le> al"
      proof (rule ccontr)
        assume "\<not> 1 \<le> al"
        with "1.prems" have "al = 0" by simp
        with ex diff show False
          by (simp add: Genome_extract_nonneg substr_def size_t_of_int_def split: if_splits)
      qed
      with "1.prems" have before: "Genome_extract g pos (al - 1) = Some (take (nat (al - 1)) frag)"
        by simp
      from Genome_extract_shorter [OF ex, of "al - 1"] al1
      have "Genome_extract g pos (al - 1) = Some (take (nat (al - 1)) ?sub)"
        by simp
      with before have tk: "take (nat (al - 1)) ?sub = take (nat (al - 1)) frag"
        by simp
      from Genome_extract_length [OF ex] al1 have len: "length ?sub = Suc (nat (al - 1))"
        by simp
      have last: "?sub ! nat (al - 1) \<noteq> frag ! nat (al - 1)"
      proof
        assume "?sub ! nat (al - 1) = frag ! nat (al - 1)"
        with len tk have "?sub = take (Suc (nat (al - 1))) frag"
          using al1 "1.prems"(2) by (intro take_last_eq) simp_all
        with diff al1 show False
          by (simp add: substr_def sz Suc_nat_eq_nat_zadd1)
      qed
      with guard ne diff have "extendMatch g frag pos al True = al - 1"
        by (simp add: extendMatch.simps [of g frag pos al])
      with before show ?thesis by simp
    qed
  qed
qed

text \<open>
  With \<open>exactOnly\<close> set, on a matcher with \<open>k \<ge> 1\<close>, a returned match names a genome
  of the library, has at least the minimum length, and either equals the fragment over
  its whole length or has the length at which the extraction failed and the loop was
  left.
\<close>

lemma exact_match_sound_unless_sentinel:
  assumes "reachable gm" and "1 \<le> m_minSearchLength gm"
    and "findGenomesWithThisDNA gm fragment minimumLength True old = Some (True, matches)"
    and "d \<in> set matches"
  shows "\<exists>gid. 1 \<le> gid \<and> gid \<le> int (length (m_genomeLibrary gm))
           \<and> DNAMatch.genomeName d = Genome_name (m_genomeLibrary gm ! nat (gid - 1))
           \<and> minimumLength \<le> length' d
           \<and> (Genome_extract (m_genomeLibrary gm ! nat (gid - 1)) (position d) (length' d)
                 = Some (take (nat (length' d)) fragment)
               \<or> extractOrError (m_genomeLibrary gm ! nat (gid - 1)) (position d) (length' d)
                   = ''error'')"
proof -
  let ?k = "m_minSearchLength gm"
  let ?seeds = "seedHits gm fragment True"
  let ?match = "bestMatches gm fragment minimumLength True ?seeds"
  from assms(3) have out: "matches = map snd ?match"
    by (rule findGenomesWithThisDNA_True)
  from assms(3) have pre: "size_t_of_int minimumLength \<le> length fragment" "?k \<le> minimumLength"
    by (simp_all add: findGenomesWithThisDNA_True_pre)
  with assms(2) have klen: "?k \<le> int (length fragment)"
    by (simp add: size_t_of_int_def split: if_splits)
  from assms(4) out obtain gid where inm: "(gid, d) \<in> set ?match"
    by auto
  have "distinct (map fst ?match)"
    using bestMatches_best [of gm fragment minimumLength True ?seeds] by simp
  with inm have "map_of ?match gid = Some d" by simp
  moreover have "bestOf gm fragment minimumLength True ?seeds gid (map_of ?match gid)"
    using bestMatches_best [of gm fragment minimumLength True ?seeds] by simp
  ultimately have b:
    "DNAMatch.genomeName d = Genome_name (m_genomeLibrary gm ! nat (gid - 1))"
    "(gid, position d) \<in> set ?seeds"
    "seedLength gm fragment True (gid, position d) = length' d"
    "minimumLength \<le> length' d"
    by (simp_all add: bestOf_def)
  let ?g = "m_genomeLibrary gm ! nat (gid - 1)"
  let ?key = "substr fragment 0 (size_t_of_int ?k)"
  from assms(2) have key: "?key = take (nat ?k) fragment"
    by (simp add: substr_def size_t_of_int_def)
  from b(2) have at: "(gid, position d) \<in> set (valuesAt (m_sequencedDNA gm) ?key)"
    by (simp add: seedHits_def findT_exact)
  with reachable_seedsInLibrary [OF assms(1)]
  have range: "1 \<le> gid \<and> gid \<le> int (length (m_genomeLibrary gm))"
    unfolding seedsInLibrary_def by fastforce
  from at reachable_seedsExtracted [OF assms(1)]
  have seed: "Genome_extract ?g (position d) ?k = Some (take (nat ?k) fragment)"
    unfolding seedsExtracted_def key by fastforce
  from Genome_extract_shorter [OF seed, of "?k - 1"] assms(2)
  have "Genome_extract ?g (position d) (?k - 1) = Some (take (nat (?k - 1)) fragment)"
    by (simp add: min_def)
  with assms(2) klen
  have "Genome_extract ?g (position d) (extendMatch ?g fragment (position d) ?k True)
           = Some (take (nat (extendMatch ?g fragment (position d) ?k True)) fragment)
         \<or> extractOrError ?g (position d) (extendMatch ?g fragment (position d) ?k True) = ''error''"
    by (intro extendMatch_exact) simp_all
  with b(3) have "Genome_extract ?g (position d) (length' d) = Some (take (nat (length' d)) fragment)
                  \<or> extractOrError ?g (position d) (length' d) = ''error''"
    by (simp add: seedLength_def)
  with range b(1,4) show ?thesis by blast
qed

text \<open>
  Claim C3 at an input where the code departs from it, by the second alternative above.
  The library genome has 4 bases; the extraction of 5 fails, the loop is left without
  taking the length back, and the call reports a match of length 5 at position 0, where
  the genome has no substring of that length.
\<close>

theorem exact_match_past_end:
  "(addGenome (GenomeMatcherImpl 4) (GenomeImpl ''A'' ''ACGT'')
      \<bind> (\<lambda>gm. findGenomesWithThisDNA gm ''ACGTA'' 5 True []))
   = Some (True, [\<lparr>DNAMatch.genomeName = ''A'', length' = 5, position = 0\<rparr>])
   \<and> Genome_length (GenomeImpl ''A'' ''ACGT'') = 4
   \<and> Genome_extract (GenomeImpl ''A'' ''ACGT'') 0 5 = None"
  by code_simp

text \<open>
  Claim C4 at an input where the code departs from it. The genome and the fragment
  agree on 5 bases at the seeds 0 and 7 and on no more: at 0 the sixth bases differ,
  and at 7 the genome ends after the fifth. The extension of the seed at 7 leaves the
  loop at the failed extraction of 6 bases and keeps that length, which then replaces
  the length 5 found at the seed 0: the one match returned for the genome has length
  6, where the longest match of the fragment in the genome has length 5.
\<close>

theorem longest_match_past_end:
  "(addGenome (GenomeMatcherImpl 4) (GenomeImpl ''A'' ''ACGTATTACGTA'')
      \<bind> (\<lambda>gm. findGenomesWithThisDNA gm ''ACGTAC'' 4 True []))
   = Some (True, [\<lparr>DNAMatch.genomeName = ''A'', length' = 6, position = 7\<rparr>])
   \<and> Genome_length (GenomeImpl ''A'' ''ACGTATTACGTA'') = 12
   \<and> Genome_extract (GenomeImpl ''A'' ''ACGTATTACGTA'') 7 6 = None
   \<and> Genome_extract (GenomeImpl ''A'' ''ACGTATTACGTA'') 7 5 = Some (take 5 ''ACGTAC'')
   \<and> Genome_extract (GenomeImpl ''A'' ''ACGTATTACGTA'') 0 5 = Some (take 5 ''ACGTAC'')
   \<and> Genome_extract (GenomeImpl ''A'' ''ACGTATTACGTA'') 0 6 = Some ''ACGTAT''
   \<and> extendMatch (GenomeImpl ''A'' ''ACGTATTACGTA'') ''ACGTAC'' 0 4 True = 5
   \<and> extendMatch (GenomeImpl ''A'' ''ACGTATTACGTA'') ''ACGTAC'' 7 4 True = 6"
  by code_simp

section \<open>Approximate matches\<close>

lemma differences_snoc:
  "length xs = length ys \<Longrightarrow>
     differences (xs @ [a]) (ys @ [b]) = differences xs ys + (if a \<noteq> b then 1 else 0)"
  by (induction xs ys rule: list_induct2) simp_all

lemma differences_refl: "differences xs xs = 0"
  by (induction xs) simp_all

lemma differences_last:
  assumes "length s = Suc n" and "Suc n \<le> length f"
  shows "differences s (take (Suc n) f)
           = differences (take n s) (take n f) + (if s ! n \<noteq> f ! n then 1 else 0)"
proof -
  have s: "s = take n s @ [s ! n]"
    using assms(1) take_Suc_conv_app_nth [of n s] by simp
  have f: "take (Suc n) f = take n f @ [f ! n]"
    using assms(2) by (intro take_Suc_conv_app_nth) simp
  have "differences (take n s @ [s ! n]) (take n f @ [f ! n])
          = differences (take n s) (take n f) + (if s ! n \<noteq> f ! n then 1 else 0)"
    using assms by (intro differences_snoc) simp
  with s f show ?thesis by simp
qed

lemma extendMatch_approx:
  assumes "0 \<le> al" and "al \<le> int (length frag)"
    and "if snipped
         then 1 \<le> al \<and> (\<exists>s. Genome_extract g pos (al - 1) = Some s
                                \<and> differences s (take (nat (al - 1)) frag) \<le> 1)
         else (\<forall>s. Genome_extract g pos al = Some s \<longrightarrow> differences s (take (nat al) frag) \<le> 1)"
  shows "(\<exists>s. Genome_extract g pos (extendMatch g frag pos al snipped) = Some s
              \<and> differences s (take (nat (extendMatch g frag pos al snipped)) frag) \<le> 1)
         \<or> extractOrError g pos (extendMatch g frag pos al snipped) = ''error''"
  using assms
proof (induction g frag pos al snipped rule: extendMatch.induct)
  case (1 g frag pos al snipped)
  let ?sub = "extractOrError g pos al"
  let ?r = "extendMatch g frag pos al snipped"
  from "1.prems" have guard: "size_t_of_int al \<le> length frag" and sz: "size_t_of_int al = nat al"
    by (simp_all add: size_t_of_int_def)
  show ?case
  proof (cases "?sub = ''error''")
    case True
    with guard have "?r = al"
      by (simp add: extendMatch.simps [of g frag pos al])
    with True show ?thesis by simp
  next
    case ne: False
    then have ex: "Genome_extract g pos al = Some ?sub"
      by (auto simp: extractOrError_def split: option.splits)
    have len: "length ?sub = nat al"
      using Genome_extract_length [OF ex] "1.prems"(1) by simp
    show ?thesis
    proof (cases "?sub = substr frag 0 (size_t_of_int al)")
      case same: True
      then have pre: "?sub = take (nat al) frag"
        by (simp add: substr_def sz)
      have here: "differences ?sub (take (nat al) frag) \<le> 1"
        by (simp add: pre differences_refl)
      show ?thesis
      proof (cases "size_t_of_int al = length frag")
        case True
        with guard ne same have "?r = al"
          by (simp add: extendMatch.simps [of g frag pos al])
        with ex here show ?thesis by simp
      next
        case False
        with guard ne same have step: "?r = extendMatch g frag pos (al + 1) snipped"
          by (simp add: extendMatch.simps [of g frag pos al])
        from False guard sz "1.prems" have le: "al + 1 \<le> int (length frag)"
          by linarith
        have next_ok: "if snipped
           then 1 \<le> al + 1 \<and> (\<exists>s. Genome_extract g pos (al + 1 - 1) = Some s
                                  \<and> differences s (take (nat (al + 1 - 1)) frag) \<le> 1)
           else (\<forall>s. Genome_extract g pos (al + 1) = Some s
                      \<longrightarrow> differences s (take (nat (al + 1)) frag) \<le> 1)"
        proof (cases snipped)
          case True
          with ex here "1.prems"(1) show ?thesis by simp
        next
          case False
          have "differences s (take (nat (al + 1)) frag) \<le> 1"
            if s: "Genome_extract g pos (al + 1) = Some s" for s
          proof -
            from Genome_extract_shorter [OF s, of al] "1.prems"(1) ex
            have "take (nat al) s = ?sub" by simp
            with pre have tk: "take (nat al) s = take (nat al) frag" by simp
            from Genome_extract_length [OF s] "1.prems"(1) have ls: "length s = Suc (nat al)"
              by (simp add: nat_add_distrib)
            from le "1.prems"(1) have lf: "Suc (nat al) \<le> length frag"
              by linarith
            from differences_last [OF ls lf] tk
            have "differences s (take (Suc (nat al)) frag) \<le> 1"
              by (simp add: differences_refl)
            with "1.prems"(1) show ?thesis
              by (simp add: nat_add_distrib)
          qed
          with False show ?thesis by simp
        qed
        from "1.prems"(1) le next_ok show ?thesis
          unfolding step
          by (intro "1.IH"(1) [OF _ refl ne same False]) (simp_all add: guard)
      qed
    next
      case diff: False
      show ?thesis
      proof (cases snipped)
        case unsn: False
        with "1.prems"(3) ex have here: "differences ?sub (take (nat al) frag) \<le> 1"
          by simp
        show ?thesis
        proof (cases "length ?sub = length frag")
          case True
          with guard ne diff unsn have "?r = al"
            by (simp add: extendMatch.simps [of g frag pos al])
          with ex here show ?thesis by simp
        next
          case False
          with guard ne diff unsn have step: "?r = extendMatch g frag pos (al + 1) True"
            by (simp add: extendMatch.simps [of g frag pos al])
          from False len guard sz "1.prems" have le: "al + 1 \<le> int (length frag)"
            by linarith
          from ex here "1.prems"(1)
          have "1 \<le> al + 1 \<and> (\<exists>s. Genome_extract g pos (al + 1 - 1) = Some s
                                  \<and> differences s (take (nat (al + 1 - 1)) frag) \<le> 1)"
            by simp
          with "1.prems"(1) le show ?thesis
            unfolding step
            by (intro "1.IH"(2) [OF _ refl ne diff _ False]) (simp_all add: guard unsn)
        qed
      next
        case sn: True
        with "1.prems"(3) obtain s' where al1: "1 \<le> al"
          and s': "Genome_extract g pos (al - 1) = Some s'"
          and d': "differences s' (take (nat (al - 1)) frag) \<le> 1"
          by auto
        from Genome_extract_shorter [OF ex, of "al - 1"] al1 s'
        have tk: "take (nat (al - 1)) ?sub = s'" by simp
        from len al1 have ls: "length ?sub = Suc (nat (al - 1))"
          by simp
        from al1 "1.prems"(2) have lf: "Suc (nat (al - 1)) \<le> length frag"
          by linarith
        from al1 have suc: "Suc (nat (al - 1)) = nat al" by simp
        show ?thesis
        proof (cases "?sub ! nat (al - 1) \<noteq> frag ! nat (al - 1)")
          case True
          with guard ne diff sn have "?r = al - 1"
            by (simp add: extendMatch.simps [of g frag pos al])
          with s' d' show ?thesis by simp
        next
          case eq: False
          from differences_last [OF ls lf] eq tk d'
          have here: "differences ?sub (take (nat al) frag) \<le> 1"
            by (simp add: suc)
          show ?thesis
          proof (cases "length ?sub = length frag")
            case True
            with guard ne diff sn eq have "?r = al"
              by (simp add: extendMatch.simps [of g frag pos al])
            with ex here show ?thesis by simp
          next
            case False
            with guard ne diff sn eq have step: "?r = extendMatch g frag pos (al + 1) snipped"
              by (simp add: extendMatch.simps [of g frag pos al])
            from False len guard sz "1.prems" have le: "al + 1 \<le> int (length frag)"
              by linarith
            from ex here "1.prems"(1) sn
            have "if snipped
                  then 1 \<le> al + 1 \<and> (\<exists>s. Genome_extract g pos (al + 1 - 1) = Some s
                                  \<and> differences s (take (nat (al + 1 - 1)) frag) \<le> 1)
                  else (\<forall>s. Genome_extract g pos (al + 1) = Some s
                             \<longrightarrow> differences s (take (nat (al + 1)) frag) \<le> 1)"
              by simp
            with "1.prems"(1) le show ?thesis
              unfolding step
              by (intro "1.IH"(3) [OF _ refl ne diff _ _ False]) (simp_all add: guard sn eq)
          qed
        qed
      qed
    qed
  qed
qed

text \<open>
  Without \<open>exactOnly\<close>, likewise: the returned substring differs from the fragment in
  at most one position and agrees with it at index 0, or the match has the length at
  which the extraction failed. The mismatch inside the seed is found at the first pass
  of the loop, which spends the allowance on it.
\<close>

lemma approximate_match_sound_unless_sentinel:
  assumes "reachable gm" and "1 \<le> m_minSearchLength gm"
    and "findGenomesWithThisDNA gm fragment minimumLength False old = Some (True, matches)"
    and "d \<in> set matches"
  shows "\<exists>gid. 1 \<le> gid \<and> gid \<le> int (length (m_genomeLibrary gm))
           \<and> DNAMatch.genomeName d = Genome_name (m_genomeLibrary gm ! nat (gid - 1))
           \<and> minimumLength \<le> length' d
           \<and> ((\<exists>s. Genome_extract (m_genomeLibrary gm ! nat (gid - 1)) (position d) (length' d)
                       = Some s
                     \<and> differences s (take (nat (length' d)) fragment) \<le> 1
                     \<and> hd s = hd fragment)
               \<or> extractOrError (m_genomeLibrary gm ! nat (gid - 1)) (position d) (length' d)
                   = ''error'')"
proof -
  let ?k = "m_minSearchLength gm"
  let ?seeds = "seedHits gm fragment False"
  let ?match = "bestMatches gm fragment minimumLength False ?seeds"
  from assms(3) have out: "matches = map snd ?match"
    by (rule findGenomesWithThisDNA_True)
  from assms(3) have pre: "size_t_of_int minimumLength \<le> length fragment" "?k \<le> minimumLength"
    by (simp_all add: findGenomesWithThisDNA_True_pre)
  with assms(2) have klen: "?k \<le> int (length fragment)"
    by (simp add: size_t_of_int_def split: if_splits)
  from assms(4) out obtain gid where inm: "(gid, d) \<in> set ?match"
    by auto
  have "distinct (map fst ?match)"
    using bestMatches_best [of gm fragment minimumLength False ?seeds] by simp
  with inm have "map_of ?match gid = Some d" by simp
  moreover have "bestOf gm fragment minimumLength False ?seeds gid (map_of ?match gid)"
    using bestMatches_best [of gm fragment minimumLength False ?seeds] by simp
  ultimately have b:
    "DNAMatch.genomeName d = Genome_name (m_genomeLibrary gm ! nat (gid - 1))"
    "(gid, position d) \<in> set ?seeds"
    "seedLength gm fragment False (gid, position d) = length' d"
    "minimumLength \<le> length' d"
    by (simp_all add: bestOf_def)
  let ?g = "m_genomeLibrary gm ! nat (gid - 1)"
  let ?key = "substr fragment 0 (size_t_of_int ?k)"
  from assms(2) have key: "?key = take (nat ?k) fragment"
    by (simp add: substr_def size_t_of_int_def)
  from assms(2) klen have ne: "?key \<noteq> []" and hk: "hd ?key = hd fragment"
    unfolding key by (cases fragment; simp)+
  from b(2) have "(gid, position d) \<in> set (findT_inRange ?key False (m_sequencedDNA gm))"
    by (simp add: seedHits_def)
  from findT_admissible [OF this ne] obtain p
    where adm: "admissible ?key False p"
      and at: "(gid, position d) \<in> set (valuesAt (m_sequencedDNA gm) p)"
    by blast
  from admissible_differences [OF adm ne]
  have p: "hd p = hd fragment" "differences p (take (nat ?k) fragment) \<le> 1"
    by (simp_all add: hk) (simp add: key)
  from at reachable_seedsInLibrary [OF assms(1)]
  have range: "1 \<le> gid \<and> gid \<le> int (length (m_genomeLibrary gm))"
    unfolding seedsInLibrary_def by fastforce
  from at reachable_seedsExtracted [OF assms(1)]
  have seed: "Genome_extract ?g (position d) ?k = Some p"
    unfolding seedsExtracted_def by fastforce
  let ?r = "extendMatch ?g fragment (position d) ?k False"
  have r: "?r = length' d"
    using b(3) by (simp add: seedLength_def)
  from assms(2) klen seed p(2)
  have "(\<exists>s. Genome_extract ?g (position d) ?r = Some s
              \<and> differences s (take (nat ?r) fragment) \<le> 1)
         \<or> extractOrError ?g (position d) ?r = ''error''"
    by (intro extendMatch_approx) simp_all
  then have "(\<exists>s. Genome_extract ?g (position d) (length' d) = Some s
                \<and> differences s (take (nat (length' d)) fragment) \<le> 1 \<and> hd s = hd fragment)
             \<or> extractOrError ?g (position d) (length' d) = ''error''"
    unfolding r
  proof
    assume "\<exists>s. Genome_extract ?g (position d) (length' d) = Some s
                \<and> differences s (take (nat (length' d)) fragment) \<le> 1"
    then obtain s where s: "Genome_extract ?g (position d) (length' d) = Some s"
      and ds: "differences s (take (nat (length' d)) fragment) \<le> 1"
      by blast
    from pre(2) b(4) have "?k \<le> length' d" by simp
    from Genome_extract_shorter [OF s _ this] assms(2) seed
    have "take (nat ?k) s = p" by simp
    moreover from assms(2) have "hd (take (nat ?k) s) = hd s"
      by (cases s; cases "nat ?k") simp_all
    ultimately have "hd s = hd fragment"
      using p(1) by simp
    with s ds show ?thesis by blast
  next
    assume "extractOrError ?g (position d) (length' d) = ''error''"
    then show ?thesis by blast
  qed
  with range b(1,4) show ?thesis by blast
qed

text \<open>
  Claim C2 at an input where the code departs from it: the same exit of the loop, after
  the seed \<open>ACGT\<close> was found for the key \<open>AGGT\<close> with its one mismatch. The reported
  match of length 5 differs from the fragment at index 1 and has no base at index 4.
\<close>

theorem approximate_match_past_end:
  "(addGenome (GenomeMatcherImpl 4) (GenomeImpl ''A'' ''ACGT'')
      \<bind> (\<lambda>gm. findGenomesWithThisDNA gm ''AGGTA'' 5 False []))
   = Some (True, [\<lparr>DNAMatch.genomeName = ''A'', length' = 5, position = 0\<rparr>])
   \<and> Genome_extract (GenomeImpl ''A'' ''ACGT'') 0 5 = None
   \<and> mismatches (GenomeImpl ''A'' ''ACGT'') 0 5 ''AGGTA'' = 2"
  by code_simp

end
